theory Spec2Isabelle
  imports Complex_Main
begin

section \<open>JavaScript numbers\<close>

text \<open>
  A TypeScript \<^verbatim>\<open>number\<close> is modelled as a rational or \<^verbatim>\<open>NaN\<close>. The two infinities
  are not represented, and the sum and the difference of this type are exact; the rounded
  sum and difference of the source are \<open>double_add\<close> and \<open>double_sub\<close> below. Reading an array outside its bounds gives
  \<^verbatim>\<open>undefined\<close> in the source; every operation this code applies to such a value
  (\<^verbatim>\<open><\<close>, \<^verbatim>\<open>></\<close>, \<^verbatim>\<open>===\<close>, \<^verbatim>\<open>!==\<close>, arithmetic, \<^verbatim>\<open>Math.max\<close>) treats
  \<^verbatim>\<open>undefined\<close> exactly as it treats \<^verbatim>\<open>NaN\<close>, so the model reads \<open>NaN\<close> there.
\<close>

datatype number = Num rat | NaN

instantiation number :: "{zero, one, plus, minus, uminus, ord}"
begin

definition zero_number :: number where
  "zero_number = Num 0"

definition one_number :: number where
  "one_number = Num 1"

fun plus_number :: "number \<Rightarrow> number \<Rightarrow> number" where
  "plus_number (Num a) (Num b) = Num (a + b)"
| "plus_number _ _ = NaN"

fun minus_number :: "number \<Rightarrow> number \<Rightarrow> number" where
  "minus_number (Num a) (Num b) = Num (a - b)"
| "minus_number _ _ = NaN"

fun uminus_number :: "number \<Rightarrow> number" where
  "uminus_number (Num a) = Num (- a)"
| "uminus_number NaN = NaN"

fun less_number :: "number \<Rightarrow> number \<Rightarrow> bool" where
  "less_number (Num a) (Num b) = (a < b)"
| "less_number _ _ = False"

fun less_eq_number :: "number \<Rightarrow> number \<Rightarrow> bool" where
  "less_eq_number (Num a) (Num b) = (a \<le> b)"
| "less_eq_number _ _ = False"

instance ..

end

text \<open>\<^verbatim>\<open>a === b\<close> and \<^verbatim>\<open>a !== b\<close> on numbers: \<^verbatim>\<open>NaN\<close> equals nothing.\<close>

fun strict_eq :: "number \<Rightarrow> number \<Rightarrow> bool" where
  "strict_eq (Num a) (Num b) = (a = b)"
| "strict_eq _ _ = False"

definition strict_ne :: "number \<Rightarrow> number \<Rightarrow> bool" where
  "strict_ne a b = (\<not> strict_eq a b)"

text \<open>\<^verbatim>\<open>Math.max(a, b)\<close>.\<close>

fun Math_max :: "number \<Rightarrow> number \<Rightarrow> number" where
  "Math_max (Num a) (Num b) = Num (max a b)"
| "Math_max _ _ = NaN"

text \<open>\<^verbatim>\<open>a[i]\<close> for a number array and an integer index.\<close>

definition nth_js :: "number list \<Rightarrow> int \<Rightarrow> number" where
  "nth_js a i = (if 0 \<le> i \<and> i < int (length a) then a ! nat i else NaN)"

section \<open>MarginCollapseCollection\<close>

record MarginCollapseCollection =
  positive :: number
  negative :: number

definition MarginCollapseCollection_add :: "number \<Rightarrow> MarginCollapseCollection \<Rightarrow> MarginCollapseCollection" where
  "MarginCollapseCollection_add margin this =
     (if margin < 0
      then this\<lparr>negative := Math_max (negative this) (- margin)\<rparr>
      else this\<lparr>positive := Math_max (positive this) margin\<rparr>)"

definition MarginCollapseCollection_new :: "number \<Rightarrow> MarginCollapseCollection" where
  "MarginCollapseCollection_new initialMargin =
     MarginCollapseCollection_add initialMargin \<lparr>positive = 0, negative = 0\<rparr>"

definition MarginCollapseCollection_get :: "MarginCollapseCollection \<Rightarrow> number" where
  "MarginCollapseCollection_get this = positive this - negative this"

definition MarginCollapseCollection_clone :: "MarginCollapseCollection \<Rightarrow> MarginCollapseCollection" where
  "MarginCollapseCollection_clone this =
     (MarginCollapseCollection_new 0)\<lparr>positive := positive this, negative := negative this\<rparr>"

section \<open>binarySearch\<close>

function binarySearch_loop :: "number list \<Rightarrow> number \<Rightarrow> int \<Rightarrow> int \<Rightarrow> int" where
  "binarySearch_loop a x l r =
     (if nth_js a ((l + r) div 2) < x
      then (if (l + r) div 2 + 1 > r then (l + r) div 2 + 1
            else binarySearch_loop a x ((l + r) div 2 + 1) r)
      else if nth_js a ((l + r) div 2) > x
      then (if (l + r) div 2 - 1 < l then (l + r) div 2
            else binarySearch_loop a x l ((l + r) div 2 - 1))
      else (l + r) div 2)"
  by pat_completeness auto
termination
  by (relation "measure (\<lambda>(a, x, l, r). nat (r - l))") auto

declare binarySearch_loop.simps [simp del]

definition binarySearch :: "number list \<Rightarrow> number \<Rightarrow> int" where
  "binarySearch a x = binarySearch_loop a x 0 (int (length a) - 1)"


section \<open>Boxes, styles and areas\<close>

text \<open>
  The style accessors (\<^verbatim>\<open>getMarginBlockStart(box)\<close> and so on) belong to the cascade,
  which is outside this development; a style is the record of the used values they return.
  A margin or a size is a number or the keyword \<^verbatim>\<open>auto\<close>.
\<close>

datatype used = Auto | Px number

datatype Float = FloatNone | FloatLeft | FloatRight

datatype Clear = ClearNone | ClearLeft | ClearRight | ClearBoth

datatype WritingMode = HorizontalTb | VerticalLr | VerticalRl

datatype Direction = Ltr | Rtl

record Style =
  float :: Float
  clear :: Clear
  writingMode :: WritingMode
  direction :: Direction
  getMarginBlockStart :: used
  getMarginBlockEnd :: used
  getMarginLineLeft :: used
  getMarginLineRight :: used
  getPaddingBlockStart :: number
  getPaddingBlockEnd :: number
  getPaddingLineLeft :: number
  getPaddingLineRight :: number
  getBorderBlockStartWidth :: number
  getBorderBlockEndWidth :: number
  getBorderLineLeftWidth :: number
  getBorderLineRightWidth :: number
  getBlockSize :: used
  getInlineSize :: used
  hasBorder :: bool
  hasPadding :: bool

text \<open>
  The attribute bits of a box (\<^verbatim>\<open>Box.ATTRS\<close>) and its positioning getters are declared
  in the box module, outside this development; they are the fields of this record.
\<close>

record Attrs =
  isAnonymous :: bool
  isInline :: bool
  isBfcRoot :: bool
  isFloat :: bool
  enableLogging :: bool
  isRelativeOrStatic :: bool
  isAbsolute :: bool
  isPositioned :: bool

text \<open>Of an \<^verbatim>\<open>IfcInline\<close> the layout reads its analysis bits only.\<close>

record IfcInline =
  ifc_id :: nat
  ANALYSIS_HAS_TEXT :: bool
  ANALYSIS_HAS_FLOATS :: bool

text \<open>
  The immutable part of a \<^verbatim>\<open>BlockContainer\<close>: its identity, style, attributes and
  children. Its areas and its containing block are mutable and live in the heap below.
\<close>

datatype BlockContainer =
  BlockContainer (box_id: nat) (style: Style) (attrs: Attrs) (children: Children)
and Children =
  IfcInlines "IfcInline list"
| BlockContainers "BlockContainer list"

text \<open>
  A \<^verbatim>\<open>BlockContainerArea\<close>. The \<^verbatim>\<open>parent\<close> pointer, which only
  \<^verbatim>\<open>absolutify\<close> reads, is left out.
\<close>

record BlockContainerArea =
  blockContainer :: BlockContainer
  blockStart :: number
  blockSize :: number
  lineLeft :: number
  inlineSize :: number

text \<open>
  Areas are objects shared by reference: the border, padding and content area of a box are
  one object when the box has no border and no padding. The heap maps addresses to areas
  and box identities to the addresses of their three areas and of their containing block.
  It also holds, for each \<^verbatim>\<open>IfcInline\<close>, the height of its paragraph, which the text
  layout sets.
\<close>

record Heap =
  areas :: "nat \<Rightarrow> BlockContainerArea"
  nextArea :: nat
  borderArea :: "nat \<Rightarrow> nat"
  paddingArea :: "nat \<Rightarrow> nat"
  contentArea :: "nat \<Rightarrow> nat"
  containingBlock :: "nat \<Rightarrow> nat option"
  paragraphHeight :: "nat \<Rightarrow> number"

datatype Error =
  UsedValueExpected
| InlineEncountered
| BfcRootsOnly
| TriedToPlaceFloatNone
| AssertionFailed
| AttemptedToPlaceFloatNone
| NoContainingBlock
| CouldNotAssignContainingBlock
| NotBlockLevel
| ChildrenAreBlockContainers

text \<open>
  The result of a method that mutates its object and may throw: the state it leaves behind,
  and the exception if one was thrown.
\<close>

datatype 's outcome = Done 's | Threw Error 's

fun state_of :: "'s outcome \<Rightarrow> 's" where
  "state_of (Done s) = s"
| "state_of (Threw e s) = s"

fun threw :: "'s outcome \<Rightarrow> bool" where
  "threw (Done s) = False"
| "threw (Threw e s) = True"

definition area_height :: "BlockContainerArea \<Rightarrow> number" where
  "area_height a = blockSize a"

definition area_width :: "BlockContainerArea \<Rightarrow> number" where
  "area_width a = inlineSize a"

definition area_writingMode :: "BlockContainerArea \<Rightarrow> WritingMode" where
  "area_writingMode a = writingMode (style (blockContainer a))"

definition area_direction :: "BlockContainerArea \<Rightarrow> Direction" where
  "area_direction a = direction (style (blockContainer a))"

definition BlockContainer_writingMode :: "Heap \<Rightarrow> BlockContainer \<Rightarrow> Error + WritingMode" where
  "BlockContainer_writingMode h box =
     (case containingBlock h (box_id box) of
        None \<Rightarrow> Inl NoContainingBlock
      | Some cb \<Rightarrow> Inr (area_writingMode (areas h cb)))"

definition BlockContainer_direction :: "Heap \<Rightarrow> BlockContainer \<Rightarrow> Error + Direction" where
  "BlockContainer_direction h box =
     (case containingBlock h (box_id box) of
        None \<Rightarrow> Inl NoContainingBlock
      | Some cb \<Rightarrow> Inr (area_direction (areas h cb)))"

text \<open>
  \<^verbatim>\<open>blockSizeForWritingMode\<close> and \<^verbatim>\<open>inlineSizeForWritingMode\<close>. Every area of the
  model has a block container, so the source's branch for an area without one is absent.
\<close>

definition blockSizeForWritingMode :: "Heap \<Rightarrow> BlockContainerArea \<Rightarrow> WritingMode \<Rightarrow> Error + number" where
  "blockSizeForWritingMode h a wm =
     (case BlockContainer_writingMode h (blockContainer a) of
        Inl e \<Rightarrow> Inl e
      | Inr own \<Rightarrow>
          Inr (if (own = HorizontalTb) \<noteq> (wm = HorizontalTb) then inlineSize a else blockSize a))"

definition inlineSizeForWritingMode :: "Heap \<Rightarrow> BlockContainerArea \<Rightarrow> WritingMode \<Rightarrow> Error + number" where
  "inlineSizeForWritingMode h a wm =
     (case BlockContainer_writingMode h (blockContainer a) of
        Inl e \<Rightarrow> Inl e
      | Inr own \<Rightarrow>
          Inr (if (own = HorizontalTb) \<noteq> (wm = HorizontalTb) then blockSize a else inlineSize a))"

definition setBlockPosition :: "BlockContainer \<Rightarrow> number \<Rightarrow> Heap \<Rightarrow> Heap outcome" where
  "setBlockPosition box position h =
     (if containingBlock h (box_id box) = None then Threw NoContainingBlock h
      else Done (h\<lparr>areas := (areas h)
             (borderArea h (box_id box) :=
                (areas h (borderArea h (box_id box)))\<lparr>blockStart := position\<rparr>)\<rparr>))"

definition setInlinePosition :: "BlockContainer \<Rightarrow> number \<Rightarrow> Heap \<Rightarrow> Heap outcome" where
  "setInlinePosition box v h =
     (if containingBlock h (box_id box) = None then Threw NoContainingBlock h
      else Done (h\<lparr>areas := (areas h)
             (borderArea h (box_id box) :=
                (areas h (borderArea h (box_id box)))\<lparr>lineLeft := v\<rparr>)\<rparr>))"

record Margins =
  m_blockStart :: number
  m_lineRight :: number
  m_blockEnd :: number
  m_lineLeft :: number

definition autoIsZero :: "used \<Rightarrow> number" where
  "autoIsZero v = (case v of Auto \<Rightarrow> 0 | Px n \<Rightarrow> n)"

definition getMarginsAutoIsZero :: "BlockContainer \<Rightarrow> Margins" where
  "getMarginsAutoIsZero box =
     \<lparr>m_blockStart = autoIsZero (getMarginBlockStart (style box)),
      m_lineRight = autoIsZero (getMarginLineRight (style box)),
      m_blockEnd = autoIsZero (getMarginBlockEnd (style box)),
      m_lineLeft = autoIsZero (getMarginLineLeft (style box))\<rparr>"


section \<open>Arrays\<close>

text \<open>
  \<^verbatim>\<open>a.splice(start, 0, v)\<close>: a negative start counts from the end, and the position is
  clamped to the array.
\<close>

definition splice_insert :: "'a list \<Rightarrow> int \<Rightarrow> 'a \<Rightarrow> 'a list" where
  "splice_insert a start v =
     (let len = int (length a);
          k = (if start < 0 then max (len + start) 0 else min start len)
      in take (nat k) a @ [v] @ drop (nat k) a)"

text \<open>
  \<^verbatim>\<open>a[i] = v\<close>: a write past the end extends the array, leaving holes that read as
  \<^verbatim>\<open>undefined\<close>. A write at a negative index does not touch the elements.
\<close>

definition set_js :: "number list \<Rightarrow> int \<Rightarrow> number \<Rightarrow> number list" where
  "set_js a i v =
     (if 0 \<le> i \<and> i < int (length a) then a[nat i := v]
      else if int (length a) \<le> i then a @ replicate (nat (i - int (length a))) NaN @ [v]
      else a)"

section \<open>FloatSide\<close>

record IfcVacancy =
  v_leftOffset :: number
  v_rightOffset :: number
  v_inlineSize :: number
  v_blockOffset :: number
  v_leftFloatCount :: number
  v_rightFloatCount :: number

record FloatSide =
  items :: "BlockContainer list"
  shelfBlockOffset :: number
  shelfTrackIndex :: int
  blockOffsets :: "number list"
  inlineSizes :: "number list"
  inlineOffsets :: "number list"
  floatCounts :: "number list"

definition FloatSide_new :: "number \<Rightarrow> FloatSide" where
  "FloatSide_new blockOffset =
     \<lparr>items = [], shelfBlockOffset = blockOffset, shelfTrackIndex = 0,
      blockOffsets = [blockOffset], inlineSizes = [0], inlineOffsets = [0], floatCounts = [0]\<rparr>"

definition FloatSide_initialize :: "number \<Rightarrow> FloatSide \<Rightarrow> FloatSide" where
  "FloatSide_initialize blockOffset this =
     this\<lparr>shelfBlockOffset := blockOffset, blockOffsets := [blockOffset]\<rparr>"

function getSizeOfTracks_loop :: "FloatSide \<Rightarrow> int \<Rightarrow> number \<Rightarrow> int \<Rightarrow> number \<Rightarrow> number" where
  "getSizeOfTracks_loop this endTrack inlineOffset i mx =
     (if i < endTrack
      then getSizeOfTracks_loop this endTrack inlineOffset (i + 1)
             (if nth_js (floatCounts this) i > 0
              then Math_max mx (inlineOffset + nth_js (inlineSizes this) i - nth_js (inlineOffsets this) i)
              else mx)
      else mx)"
  by pat_completeness auto
termination
  by (relation "measure (\<lambda>(this, endTrack, inlineOffset, i, mx). nat (endTrack - i))") auto

declare getSizeOfTracks_loop.simps [simp del]

definition FloatSide_getSizeOfTracks :: "FloatSide \<Rightarrow> int \<Rightarrow> int \<Rightarrow> number \<Rightarrow> number" where
  "FloatSide_getSizeOfTracks this start endTrack inlineOffset =
     getSizeOfTracks_loop this endTrack inlineOffset start 0"

definition FloatSide_getOverflow :: "FloatSide \<Rightarrow> number" where
  "FloatSide_getOverflow this =
     FloatSide_getSizeOfTracks this 0 (int (length (inlineSizes this))) 0"

function getFloatCountOfTracks_loop :: "FloatSide \<Rightarrow> int \<Rightarrow> int \<Rightarrow> number \<Rightarrow> number" where
  "getFloatCountOfTracks_loop this endTrack i mx =
     (if i < endTrack
      then getFloatCountOfTracks_loop this endTrack (i + 1) (Math_max mx (nth_js (floatCounts this) i))
      else mx)"
  by pat_completeness auto
termination
  by (relation "measure (\<lambda>(this, endTrack, i, mx). nat (endTrack - i))") auto

declare getFloatCountOfTracks_loop.simps [simp del]

definition FloatSide_getFloatCountOfTracks :: "FloatSide \<Rightarrow> int \<Rightarrow> int \<Rightarrow> number" where
  "FloatSide_getFloatCountOfTracks this start endTrack = getFloatCountOfTracks_loop this endTrack start 0"

function getEndTrack_loop :: "number list \<Rightarrow> number \<Rightarrow> int \<Rightarrow> int" where
  "getEndTrack_loop offsets blockPosition endTrack =
     (if endTrack < int (length offsets) \<and> nth_js offsets endTrack < blockPosition
      then getEndTrack_loop offsets blockPosition (endTrack + 1)
      else endTrack)"
  by pat_completeness auto
termination
  by (relation "measure (\<lambda>(offsets, blockPosition, endTrack). nat (int (length offsets) - endTrack))") auto

declare getEndTrack_loop.simps [simp del]

definition FloatSide_getEndTrack :: "FloatSide \<Rightarrow> int \<Rightarrow> number \<Rightarrow> number \<Rightarrow> int" where
  "FloatSide_getEndTrack this start blockOffset bSize =
     getEndTrack_loop (blockOffsets this) (blockOffset + bSize) (start + 1)"

definition FloatSide_getTrackRange :: "FloatSide \<Rightarrow> number \<Rightarrow> number \<Rightarrow> int \<times> int" where
  "FloatSide_getTrackRange this blockOffset bSize =
     (let start = binarySearch (blockOffsets this) blockOffset;
          start = (if strict_ne (nth_js (blockOffsets this) start) blockOffset
                   then start - 1 else start)
      in (start, FloatSide_getEndTrack this start blockOffset bSize))"

definition FloatSide_getOccupiedSpace :: "FloatSide \<Rightarrow> number \<Rightarrow> number \<Rightarrow> number \<Rightarrow> number" where
  "FloatSide_getOccupiedSpace this blockOffset bSize inlineOffset =
     (if length (items this) = 0 then 0
      else (let (start, endTrack) = FloatSide_getTrackRange this blockOffset bSize
            in FloatSide_getSizeOfTracks this start endTrack inlineOffset))"

definition FloatSide_boxStart :: "number \<Rightarrow> FloatSide \<Rightarrow> FloatSide" where
  "FloatSide_boxStart blockOffset this =
     (let this = this\<lparr>shelfBlockOffset := blockOffset\<rparr>
      in this\<lparr>shelfTrackIndex := fst (FloatSide_getTrackRange this (shelfBlockOffset this) 0)\<rparr>)"

definition FloatSide_dropShelf :: "number \<Rightarrow> FloatSide \<Rightarrow> FloatSide" where
  "FloatSide_dropShelf blockOffset this =
     (if blockOffset > shelfBlockOffset this
      then (let this = this\<lparr>shelfBlockOffset := blockOffset\<rparr>
            in this\<lparr>shelfTrackIndex := fst (FloatSide_getTrackRange this (shelfBlockOffset this) 0)\<rparr>)
      else this)"

definition FloatSide_getNextTrackOffset :: "FloatSide \<Rightarrow> number" where
  "FloatSide_getNextTrackOffset this =
     (if shelfTrackIndex this + 1 < int (length (blockOffsets this))
      then nth_js (blockOffsets this) (shelfTrackIndex this + 1)
      else nth_js (blockOffsets this) (shelfTrackIndex this))"

definition FloatSide_getBottom :: "FloatSide \<Rightarrow> number" where
  "FloatSide_getBottom this = nth_js (blockOffsets this) (int (length (blockOffsets this)) - 1)"

definition FloatSide_splitTrack :: "int \<Rightarrow> number \<Rightarrow> FloatSide \<Rightarrow> FloatSide" where
  "FloatSide_splitTrack trackIndex blockOffset this =
     (let tSize = nth_js (inlineSizes this) trackIndex;
          tOffset = nth_js (inlineOffsets this) trackIndex;
          tCount = nth_js (floatCounts this) trackIndex
      in this\<lparr>blockOffsets := splice_insert (blockOffsets this) (trackIndex + 1) blockOffset,
              inlineSizes := splice_insert (inlineSizes this) trackIndex tSize,
              inlineOffsets := splice_insert (inlineOffsets this) trackIndex tOffset,
              floatCounts := splice_insert (floatCounts this) trackIndex tCount\<rparr>)"

definition FloatSide_splitIfShelfDropped :: "FloatSide \<Rightarrow> FloatSide" where
  "FloatSide_splitIfShelfDropped this =
     (if strict_ne (nth_js (blockOffsets this) (shelfTrackIndex this)) (shelfBlockOffset this)
      then (let this = FloatSide_splitTrack (shelfTrackIndex this) (shelfBlockOffset this) this
            in this\<lparr>shelfTrackIndex := shelfTrackIndex this + 1\<rparr>)
      else this)"

text \<open>
  The loop of \<^verbatim>\<open>placeFloat\<close> over the tracks the float covers; \<open>placeFloat_track\<close> is its
  body.
\<close>

definition placeFloat_track ::
  "number \<Rightarrow> number \<Rightarrow> number \<Rightarrow> number \<Rightarrow> int \<Rightarrow> FloatSide \<Rightarrow> FloatSide" where
  "placeFloat_track cbOffset marginOffset width marginEnd track this =
     (let this =
        (if strict_eq (nth_js (floatCounts this) track) 0
         then (let this = this\<lparr>inlineOffsets := set_js (inlineOffsets this) track (- cbOffset)\<rparr>
               in this\<lparr>inlineSizes := set_js (inlineSizes this) track
                           (marginOffset + width + marginEnd)\<rparr>)
         else this\<lparr>inlineSizes := set_js (inlineSizes this) track
                     (nth_js (inlineOffsets this) track + cbOffset + marginOffset + width + marginEnd)\<rparr>)
      in this\<lparr>floatCounts := set_js (floatCounts this) track (nth_js (floatCounts this) track + 1)\<rparr>)"

function placeFloat_loop ::
  "number \<Rightarrow> number \<Rightarrow> number \<Rightarrow> number \<Rightarrow> int \<Rightarrow> int \<Rightarrow> FloatSide \<Rightarrow> FloatSide" where
  "placeFloat_loop cbOffset marginOffset width marginEnd endTrack track this =
     (if track < endTrack
      then placeFloat_loop cbOffset marginOffset width marginEnd endTrack (track + 1)
             (placeFloat_track cbOffset marginOffset width marginEnd track this)
      else this)"
  by pat_completeness auto
termination
  by (relation "measure (\<lambda>(cbOffset, marginOffset, width, marginEnd, endTrack, track, this).
        nat (endTrack - track))") auto

declare placeFloat_loop.simps [simp del]

text \<open>
  \<^verbatim>\<open>placeFloat\<close>, in the three blocks of the source: the splits that put the float's
  start and end on track boundaries, the inline position of the box, and the loop above.
\<close>

definition placeFloat_split :: "number \<Rightarrow> FloatSide \<Rightarrow> FloatSide \<times> int \<times> int" where
  "placeFloat_split bSize this =
     (let this = FloatSide_splitIfShelfDropped this;
          startTrack = shelfTrackIndex this;
          blockEndOffset = shelfBlockOffset this + bSize;
          endTrack = (if bSize > 0
                      then FloatSide_getEndTrack this startTrack (shelfBlockOffset this) bSize
                      else startTrack);
          this = (if bSize > 0 \<and> strict_ne (nth_js (blockOffsets this) endTrack) blockEndOffset
                  then FloatSide_splitTrack (endTrack - 1) blockEndOffset this
                  else this)
      in (this, startTrack, endTrack))"

definition placeFloat_position ::
  "BlockContainer \<Rightarrow> number \<Rightarrow> number \<Rightarrow> number \<Rightarrow> Heap \<Rightarrow> Heap outcome" where
  "placeFloat_position box cbOffset cbLineSide marginOffset h =
     (if float (style box) = FloatLeft
      then setInlinePosition box (cbOffset - cbLineSide + marginOffset) h
      else (case containingBlock h (box_id box) of
              None \<Rightarrow> Threw NoContainingBlock h
            | Some cb \<Rightarrow>
               (case inlineSizeForWritingMode h (areas h cb) (area_writingMode (areas h cb)) of
                  Inl e \<Rightarrow> Threw e h
                | Inr cbInlineSize \<Rightarrow>
                   (case inlineSizeForWritingMode h (areas h (borderArea h (box_id box)))
                           (area_writingMode (areas h cb)) of
                      Inl e \<Rightarrow> Threw e h
                    | Inr bInlineSize \<Rightarrow>
                        setInlinePosition box
                          (cbOffset - cbLineSide + cbInlineSize - marginOffset - bInlineSize) h))))"

definition FloatSide_placeFloat ::
  "BlockContainer \<Rightarrow> IfcVacancy \<Rightarrow> number \<Rightarrow> number \<Rightarrow> FloatSide \<times> Heap \<Rightarrow> (FloatSide \<times> Heap) outcome" where
  "FloatSide_placeFloat box vacancy cbLineLeft cbLineRight st =
     (let this = fst st; h = snd st in
      if float (style box) = FloatNone then Threw TriedToPlaceFloatNone (this, h)
      else if strict_ne (v_blockOffset vacancy) (shelfBlockOffset this) then Threw AssertionFailed (this, h)
      else
       (let margins = getMarginsAutoIsZero box;
            bSize = area_height (areas h (borderArea h (box_id box)))
                      + m_blockStart margins + m_blockEnd margins;
            (this, startTrack, endTrack) = placeFloat_split bSize this;
            cbOffset = (if float (style box) = FloatLeft then v_leftOffset vacancy else v_rightOffset vacancy);
            cbLineSide = (if float (style box) = FloatLeft then cbLineLeft else cbLineRight);
            marginOffset = (if float (style box) = FloatLeft then m_lineLeft margins else m_lineRight margins);
            marginEnd = (if float (style box) = FloatLeft then m_lineRight margins else m_lineLeft margins)
        in case placeFloat_position box cbOffset cbLineSide marginOffset h of
             Threw e h \<Rightarrow> Threw e (this, h)
           | Done h \<Rightarrow>
              (let this = placeFloat_loop cbOffset marginOffset
                            (area_width (areas h (borderArea h (box_id box)))) marginEnd
                            endTrack startTrack this
               in Done (this\<lparr>items := items this @ [box]\<rparr>, h))))"

section \<open>Sums in double arithmetic\<close>

text \<open>
  A sum of two numbers in the source is the IEEE 754 double nearest to the exact sum, which
  \<open>plus_number\<close> does not represent. \<open>round_double\<close> rounds a rational to the nearest
  number with a significand of 53 bits, ties to the even significand (the exponent is not
  bounded: overflow and subnormal numbers are not represented), and \<open>double_add\<close> and
  \<open>double_sub\<close> are the sum and the difference of the source on such numbers.
\<close>

function bit_length :: "int \<Rightarrow> int" where
  "bit_length n = (if n \<le> 0 then 0 else bit_length (n div 2) + 1)"
  by pat_completeness auto
termination
  by (relation "measure nat") auto

declare bit_length.simps [simp del]

definition pow2 :: "int \<Rightarrow> rat" where
  "pow2 k = (if 0 \<le> k then 2 ^ nat k else 1 / 2 ^ nat (- k))"

text \<open>The exponent \<open>e\<close> with \<open>2\<^sup>e \<le> \<bar>x\<bar> < 2\<^sup>e\<^sup>+\<^sup>1\<close>, for \<open>x \<noteq> 0\<close>.\<close>

definition binade :: "rat \<Rightarrow> int" where
  "binade x =
     (let (p, q) = quotient_of \<bar>x\<bar>;
          k = bit_length p - bit_length q
      in if pow2 k \<le> \<bar>x\<bar> then k else k - 1)"

definition round_half_even :: "rat \<Rightarrow> int" where
  "round_half_even x =
     (let f = \<lfloor>x\<rfloor>; d = x - of_int f
      in if d < 1 / 2 then f else if 1 / 2 < d then f + 1 else if even f then f else f + 1)"

definition round_double :: "rat \<Rightarrow> rat" where
  "round_double x =
     (if x = 0 then 0
      else (let ulp = pow2 (binade x - 52) in of_int (round_half_even (x / ulp)) * ulp))"

text \<open>The rationals that are such numbers: those that \<open>round_double\<close> leaves as they are.\<close>

definition representable :: "rat \<Rightarrow> bool" where
  "representable x \<longleftrightarrow> round_double x = x"

definition representable_number :: "number \<Rightarrow> bool" where
  "representable_number x = (case x of Num a \<Rightarrow> representable a | NaN \<Rightarrow> False)"

fun double_add :: "number \<Rightarrow> number \<Rightarrow> number" where
  "double_add (Num a) (Num b) = Num (round_double (a + b))"
| "double_add _ _ = NaN"

fun double_sub :: "number \<Rightarrow> number \<Rightarrow> number" where
  "double_sub (Num a) (Num b) = Num (round_double (a - b))"
| "double_sub _ _ = NaN"

section \<open>FloatSide.placeFloat with the sums as parameters\<close>

text \<open>
  \<^verbatim>\<open>placeFloat\<close> once more, with the \<^verbatim>\<open>+\<close> and the \<^verbatim>\<open>-\<close> of the source as the parameters
  \<open>add\<close> and \<open>sub\<close>, so that a statement about it holds for every rounding of the sums.
  With \<open>(+)\<close> and \<open>(-)\<close> these are the definitions above; with \<open>double_add\<close> and
  \<open>double_sub\<close> the sums are rounded as the source rounds them. \<^verbatim>\<open>getEndTrack\<close> computes
  \<^verbatim>\<open>blockOffset + blockSize\<close> itself, by the same sum as \<^verbatim>\<open>placeFloat\<close> computes
  \<^verbatim>\<open>blockEndOffset\<close>.
\<close>

definition FloatSide_getEndTrack_with ::
  "(number \<Rightarrow> number \<Rightarrow> number) \<Rightarrow> FloatSide \<Rightarrow> int \<Rightarrow> number \<Rightarrow> number \<Rightarrow> int" where
  "FloatSide_getEndTrack_with add this start blockOffset bSize =
     getEndTrack_loop (blockOffsets this) (add blockOffset bSize) (start + 1)"

definition placeFloat_track_with ::
  "(number \<Rightarrow> number \<Rightarrow> number) \<Rightarrow> number \<Rightarrow> number \<Rightarrow> number \<Rightarrow> number \<Rightarrow> int
     \<Rightarrow> FloatSide \<Rightarrow> FloatSide" where
  "placeFloat_track_with add cbOffset marginOffset width marginEnd track this =
     (let this =
        (if strict_eq (nth_js (floatCounts this) track) 0
         then (let this = this\<lparr>inlineOffsets := set_js (inlineOffsets this) track (- cbOffset)\<rparr>
               in this\<lparr>inlineSizes := set_js (inlineSizes this) track
                           (add (add marginOffset width) marginEnd)\<rparr>)
         else this\<lparr>inlineSizes := set_js (inlineSizes this) track
                     (add (add (add (add (nth_js (inlineOffsets this) track) cbOffset) marginOffset)
                        width) marginEnd)\<rparr>)
      in this\<lparr>floatCounts := set_js (floatCounts this) track
                  (add (nth_js (floatCounts this) track) 1)\<rparr>)"

function placeFloat_loop_with ::
  "(number \<Rightarrow> number \<Rightarrow> number) \<Rightarrow> number \<Rightarrow> number \<Rightarrow> number \<Rightarrow> number \<Rightarrow> int \<Rightarrow> int
     \<Rightarrow> FloatSide \<Rightarrow> FloatSide" where
  "placeFloat_loop_with add cbOffset marginOffset width marginEnd endTrack track this =
     (if track < endTrack
      then placeFloat_loop_with add cbOffset marginOffset width marginEnd endTrack (track + 1)
             (placeFloat_track_with add cbOffset marginOffset width marginEnd track this)
      else this)"
  by pat_completeness auto
termination
  by (relation "measure (\<lambda>(add, cbOffset, marginOffset, width, marginEnd, endTrack, track, this).
        nat (endTrack - track))") auto

declare placeFloat_loop_with.simps [simp del]

definition placeFloat_split_with ::
  "(number \<Rightarrow> number \<Rightarrow> number) \<Rightarrow> number \<Rightarrow> FloatSide \<Rightarrow> FloatSide \<times> int \<times> int" where
  "placeFloat_split_with add bSize this =
     (let this = FloatSide_splitIfShelfDropped this;
          startTrack = shelfTrackIndex this;
          blockEndOffset = add (shelfBlockOffset this) bSize;
          endTrack = (if bSize > 0
                      then FloatSide_getEndTrack_with add this startTrack (shelfBlockOffset this) bSize
                      else startTrack);
          this = (if bSize > 0 \<and> strict_ne (nth_js (blockOffsets this) endTrack) blockEndOffset
                  then FloatSide_splitTrack (endTrack - 1) blockEndOffset this
                  else this)
      in (this, startTrack, endTrack))"

definition placeFloat_position_with ::
  "(number \<Rightarrow> number \<Rightarrow> number) \<Rightarrow> (number \<Rightarrow> number \<Rightarrow> number)
     \<Rightarrow> BlockContainer \<Rightarrow> number \<Rightarrow> number \<Rightarrow> number \<Rightarrow> Heap \<Rightarrow> Heap outcome" where
  "placeFloat_position_with add sub box cbOffset cbLineSide marginOffset h =
     (if float (style box) = FloatLeft
      then setInlinePosition box (add (sub cbOffset cbLineSide) marginOffset) h
      else (case containingBlock h (box_id box) of
              None \<Rightarrow> Threw NoContainingBlock h
            | Some cb \<Rightarrow>
               (case inlineSizeForWritingMode h (areas h cb) (area_writingMode (areas h cb)) of
                  Inl e \<Rightarrow> Threw e h
                | Inr cbInlineSize \<Rightarrow>
                   (case inlineSizeForWritingMode h (areas h (borderArea h (box_id box)))
                           (area_writingMode (areas h cb)) of
                      Inl e \<Rightarrow> Threw e h
                    | Inr bInlineSize \<Rightarrow>
                        setInlinePosition box
                          (sub (sub (add (sub cbOffset cbLineSide) cbInlineSize) marginOffset)
                             bInlineSize) h))))"

text \<open>The \<^verbatim>\<open>blockSize\<close> of \<^verbatim>\<open>placeFloat\<close>: the height of the margin box of the float.\<close>

definition placeFloat_blockSize_with ::
  "(number \<Rightarrow> number \<Rightarrow> number) \<Rightarrow> BlockContainer \<Rightarrow> Heap \<Rightarrow> number" where
  "placeFloat_blockSize_with add box h =
     add (add (area_height (areas h (borderArea h (box_id box))))
            (m_blockStart (getMarginsAutoIsZero box)))
         (m_blockEnd (getMarginsAutoIsZero box))"

definition FloatSide_placeFloat_with ::
  "(number \<Rightarrow> number \<Rightarrow> number) \<Rightarrow> (number \<Rightarrow> number \<Rightarrow> number)
     \<Rightarrow> BlockContainer \<Rightarrow> IfcVacancy \<Rightarrow> number \<Rightarrow> number \<Rightarrow> FloatSide \<times> Heap
     \<Rightarrow> (FloatSide \<times> Heap) outcome" where
  "FloatSide_placeFloat_with add sub box vacancy cbLineLeft cbLineRight st =
     (let this = fst st; h = snd st in
      if float (style box) = FloatNone then Threw TriedToPlaceFloatNone (this, h)
      else if strict_ne (v_blockOffset vacancy) (shelfBlockOffset this) then Threw AssertionFailed (this, h)
      else
       (let margins = getMarginsAutoIsZero box;
            bSize = placeFloat_blockSize_with add box h;
            (this, startTrack, endTrack) = placeFloat_split_with add bSize this;
            cbOffset = (if float (style box) = FloatLeft then v_leftOffset vacancy else v_rightOffset vacancy);
            cbLineSide = (if float (style box) = FloatLeft then cbLineLeft else cbLineRight);
            marginOffset = (if float (style box) = FloatLeft then m_lineLeft margins else m_lineRight margins);
            marginEnd = (if float (style box) = FloatLeft then m_lineRight margins else m_lineLeft margins)
        in case placeFloat_position_with add sub box cbOffset cbLineSide marginOffset h of
             Threw e h \<Rightarrow> Threw e (this, h)
           | Done h \<Rightarrow>
              (let this = placeFloat_loop_with add cbOffset marginOffset
                            (area_width (areas h (borderArea h (box_id box)))) marginEnd
                            endTrack startTrack this
               in Done (this\<lparr>items := items this @ [box]\<rparr>, h))))"

section \<open>FloatContext and BlockFormattingContext: state\<close>

text \<open>
  A \<^verbatim>\<open>FloatContext\<close> points back to the \<^verbatim>\<open>BlockFormattingContext\<close> that owns it and reads
  four of its fields. In the model the float context is a field of the formatting context,
  and each method of the float context takes the formatting context it reads as an argument.
\<close>

record FloatContext =
  leftFloats :: FloatSide
  rightFloats :: FloatSide
  misfits :: "BlockContainer list"

datatype Last = LastStart | LastEnd

datatype StackItem = Pre BlockContainer | Post BlockContainer

record Margin =
  margin_level :: int
  collection :: MarginCollapseCollection
  clearanceAtLevel :: "int option"

record BlockFormattingContext =
  bfc_inlineSize :: number
  fctx :: "FloatContext option"
  stack :: "StackItem list"
  cbBlockStart :: number
  cbLineLeft :: number
  cbLineRight :: number
  sizeStack :: "number list"
  offsetStack :: "number list"
  bfc_last :: "Last option"
  level :: int
  hypotheticals :: "nat \<Rightarrow> number option"
  margin :: Margin

definition BlockFormattingContext_new :: "number \<Rightarrow> BlockFormattingContext" where
  "BlockFormattingContext_new inlineSz =
     \<lparr>bfc_inlineSize = inlineSz, fctx = None, stack = [], cbBlockStart = 0, cbLineLeft = 0,
      cbLineRight = 0, sizeStack = [0], offsetStack = [0], bfc_last = None, level = 0,
      hypotheticals = Map.empty,
      margin = \<lparr>margin_level = 0, collection = MarginCollapseCollection_new 0,
                 clearanceAtLevel = None\<rparr>\<rparr>"

section \<open>FloatContext\<close>

definition FloatContext_new :: "number \<Rightarrow> FloatContext" where
  "FloatContext_new blockOffset =
     \<lparr>leftFloats = FloatSide_new blockOffset, rightFloats = FloatSide_new blockOffset, misfits = []\<rparr>"

definition FloatContext_boxStart :: "BlockFormattingContext \<Rightarrow> FloatContext \<Rightarrow> FloatContext" where
  "FloatContext_boxStart bfc this =
     (let this = this\<lparr>leftFloats := FloatSide_boxStart (cbBlockStart bfc) (leftFloats this)\<rparr>
      in this\<lparr>rightFloats := FloatSide_boxStart (cbBlockStart bfc) (rightFloats this)\<rparr>)"

definition FloatContext_getVacancyForLine ::
  "BlockFormattingContext \<Rightarrow> FloatContext \<Rightarrow> number \<Rightarrow> number \<Rightarrow> IfcVacancy" where
  "FloatContext_getVacancyForLine bfc this blockOffset bSize =
     (let leftInlineSpace = FloatSide_getOccupiedSpace (leftFloats this) blockOffset bSize (- cbLineLeft bfc);
          rightInlineSpace = FloatSide_getOccupiedSpace (rightFloats this) blockOffset bSize (- cbLineRight bfc);
          lOffset = cbLineLeft bfc + leftInlineSpace;
          rOffset = cbLineRight bfc + rightInlineSpace;
          inlineSz = bfc_inlineSize bfc - lOffset - rOffset
      in \<lparr>v_leftOffset = lOffset, v_rightOffset = rOffset, v_inlineSize = inlineSz,
          v_blockOffset = blockOffset, v_leftFloatCount = 0, v_rightFloatCount = 0\<rparr>)"

definition FloatContext_getVacancyForBox ::
  "BlockFormattingContext \<Rightarrow> FloatContext \<Rightarrow> BlockContainer \<Rightarrow> Heap \<Rightarrow> IfcVacancy" where
  "FloatContext_getVacancyForBox bfc this box h =
     (let fl = float (style box);
          floats = (if fl = FloatLeft then leftFloats this else rightFloats this);
          oppositeFloats = (if fl = FloatLeft then rightFloats this else leftFloats this);
          inlineOffset = (if fl = FloatLeft then - cbLineLeft bfc else - cbLineRight bfc);
          oppositeInlineOffset = (if fl = FloatLeft then - cbLineRight bfc else - cbLineLeft bfc);
          blockOffset = shelfBlockOffset floats;
          bSize = area_height (areas h (borderArea h (box_id box)));
          startTrack = shelfTrackIndex floats;
          endTrack = FloatSide_getEndTrack floats startTrack blockOffset bSize;
          inlineSpace = FloatSide_getSizeOfTracks floats startTrack endTrack inlineOffset;
          (oppositeStartTrack, oppositeEndTrack) = FloatSide_getTrackRange oppositeFloats blockOffset bSize;
          oppositeInlineSpace =
            FloatSide_getSizeOfTracks oppositeFloats oppositeStartTrack oppositeEndTrack oppositeInlineOffset;
          lOffset = cbLineLeft bfc + (if fl = FloatLeft then inlineSpace else oppositeInlineSpace);
          rOffset = cbLineRight bfc + (if fl = FloatRight then inlineSpace else oppositeInlineSpace);
          inlineSz = bfc_inlineSize bfc - lOffset - rOffset;
          floatCount = FloatSide_getFloatCountOfTracks floats startTrack endTrack;
          oppositeFloatCount =
            FloatSide_getFloatCountOfTracks oppositeFloats oppositeStartTrack oppositeEndTrack
      in \<lparr>v_leftOffset = lOffset, v_rightOffset = rOffset, v_inlineSize = inlineSz,
          v_blockOffset = blockOffset,
          v_leftFloatCount = (if fl = FloatLeft then floatCount else oppositeFloatCount),
          v_rightFloatCount = (if fl = FloatLeft then oppositeFloatCount else floatCount)\<rparr>)"

definition FloatContext_getLeftBottom :: "FloatContext \<Rightarrow> number" where
  "FloatContext_getLeftBottom this = FloatSide_getBottom (leftFloats this)"

definition FloatContext_getRightBottom :: "FloatContext \<Rightarrow> number" where
  "FloatContext_getRightBottom this = FloatSide_getBottom (rightFloats this)"

definition FloatContext_getBothBottom :: "FloatContext \<Rightarrow> number" where
  "FloatContext_getBothBottom this =
     Math_max (FloatSide_getBottom (leftFloats this)) (FloatSide_getBottom (rightFloats this))"

text \<open>
  \<^verbatim>\<open>side\<close> and \<^verbatim>\<open>oppositeSide\<close> of \<^verbatim>\<open>placeFloat\<close> are references to the two sides of the
  float context, chosen by the float style of the box; \<open>side_of\<close> reads and \<open>side_update\<close>
  writes the side chosen.
\<close>

definition side_of :: "Float \<Rightarrow> FloatContext \<Rightarrow> FloatSide" where
  "side_of fl this = (if fl = FloatLeft then leftFloats this else rightFloats this)"

definition oppositeSide_of :: "Float \<Rightarrow> FloatContext \<Rightarrow> FloatSide" where
  "oppositeSide_of fl this = (if fl = FloatLeft then rightFloats this else leftFloats this)"

definition side_update :: "Float \<Rightarrow> (FloatSide \<Rightarrow> FloatSide) \<Rightarrow> FloatContext \<Rightarrow> FloatContext" where
  "side_update fl f this =
     (if fl = FloatLeft then this\<lparr>leftFloats := f (leftFloats this)\<rparr>
      else this\<lparr>rightFloats := f (rightFloats this)\<rparr>)"

text \<open>
  \<^verbatim>\<open>placeFloat\<close>, in the blocks of the source: the two tests on \<^verbatim>\<open>clear\<close>, the branch
  taken when the float fits, and the branch taken when it does not.
\<close>

definition placeFloat_clear :: "BlockContainer \<Rightarrow> FloatContext \<Rightarrow> FloatContext" where
  "placeFloat_clear box this =
     (let fl = float (style box);
          this = (if clear (style box) = ClearLeft \<or> clear (style box) = ClearBoth
                  then side_update fl (FloatSide_dropShelf (FloatSide_getBottom (leftFloats this))) this
                  else this)
      in if clear (style box) = ClearRight \<or> clear (style box) = ClearBoth
         then side_update fl (FloatSide_dropShelf (FloatSide_getBottom (rightFloats this))) this
         else this)"

definition placeFloat_fit ::
  "BlockFormattingContext \<Rightarrow> BlockContainer \<Rightarrow> IfcVacancy \<Rightarrow> FloatContext \<times> Heap
     \<Rightarrow> (FloatContext \<times> Heap) outcome" where
  "placeFloat_fit bfc box vacancy st =
     (let this = fst st; h = snd st; fl = float (style box); margins = getMarginsAutoIsZero box
      in case setBlockPosition box
                (shelfBlockOffset (side_of fl this) + m_blockStart margins - cbBlockStart bfc) h of
           Threw e h \<Rightarrow> Threw e (this, h)
         | Done h \<Rightarrow>
            (case FloatSide_placeFloat box vacancy (cbLineLeft bfc) (cbLineRight bfc) (side_of fl this, h) of
               Threw e (s, h) \<Rightarrow> Threw e (side_update fl (\<lambda>_. s) this, h)
             | Done (s, h) \<Rightarrow> Done (side_update fl (\<lambda>_. s) this, h)))"

definition placeFloat_misfit ::
  "BlockContainer \<Rightarrow> IfcVacancy \<Rightarrow> number \<Rightarrow> FloatContext \<times> Heap \<Rightarrow> (FloatContext \<times> Heap) outcome" where
  "placeFloat_misfit box vacancy outerInlineSize st =
     (let this = fst st; h = snd st; fl = float (style box) in
      if outerInlineSize > v_inlineSize vacancy
      then
       (let count = (if fl = FloatLeft then v_leftFloatCount vacancy else v_rightFloatCount vacancy);
            oppositeCount = (if fl = FloatLeft then v_rightFloatCount vacancy else v_leftFloatCount vacancy)
        in if count > 0
           then (let this = side_update fl
                              (\<lambda>s. FloatSide_dropShelf (FloatSide_getNextTrackOffset s) s) this
                 in Done (this\<lparr>misfits := misfits this @ [box]\<rparr>, h))
           else if oppositeCount > 0
           then (let trackIndex = snd (FloatSide_getTrackRange (oppositeSide_of fl this)
                                         (shelfBlockOffset (side_of fl this)) 0)
                 in if trackIndex = int (length (blockOffsets (oppositeSide_of fl this)))
                    then Threw AssertionFailed (this, h)
                    else (let this = side_update fl
                                       (FloatSide_dropShelf
                                          (nth_js (blockOffsets (oppositeSide_of fl this)) trackIndex)) this
                          in Done (this\<lparr>misfits := misfits this @ [box]\<rparr>, h)))
           else Done (this\<lparr>misfits := misfits this @ [box]\<rparr>, h))
      else Done (this\<lparr>misfits := misfits this @ [box]\<rparr>, h))"

definition FloatContext_placeFloat ::
  "BlockFormattingContext \<Rightarrow> number \<Rightarrow> bool \<Rightarrow> BlockContainer \<Rightarrow> FloatContext \<times> Heap
     \<Rightarrow> (FloatContext \<times> Heap) outcome" where
  "FloatContext_placeFloat bfc lineWidth lineIsEmpty box st =
     (let this = fst st; h = snd st in
      if float (style box) = FloatNone then Threw AttemptedToPlaceFloatNone (this, h)
      else if length (misfits this) \<noteq> 0 then Done (this\<lparr>misfits := misfits this @ [box]\<rparr>, h)
      else
       (let this = placeFloat_clear box this;
            vacancy = FloatContext_getVacancyForBox bfc this box h;
            margins = getMarginsAutoIsZero box;
            inlineMargin = m_lineLeft margins + m_lineRight margins;
            bWidth = area_width (areas h (borderArea h (box_id box)))
        in if bWidth + inlineMargin \<le> v_inlineSize vacancy - lineWidth \<or>
              lineIsEmpty \<and> strict_eq (v_leftFloatCount vacancy) 0 \<and> strict_eq (v_rightFloatCount vacancy) 0
           then placeFloat_fit bfc box vacancy (this, h)
           else placeFloat_misfit box vacancy (bWidth + inlineMargin) (this, h)))"

text \<open>The \<^verbatim>\<open>for\<close> loop of \<^verbatim>\<open>consumeMisfits\<close> over the boxes taken from the queue.\<close>

fun consumeMisfits_each ::
  "BlockFormattingContext \<Rightarrow> BlockContainer list \<Rightarrow> FloatContext \<times> Heap \<Rightarrow> (FloatContext \<times> Heap) outcome" where
  "consumeMisfits_each bfc [] st = Done st"
| "consumeMisfits_each bfc (box # boxes) st =
     (case FloatContext_placeFloat bfc 0 True box st of
        Threw e st \<Rightarrow> Threw e st
      | Done st \<Rightarrow> consumeMisfits_each bfc boxes st)"

text \<open>
  The \<^verbatim>\<open>while\<close> loop of \<^verbatim>\<open>consumeMisfits\<close> has no bound in the source; the result is
  \<open>None\<close> when it does not return.
\<close>

partial_function (option) FloatContext_consumeMisfits ::
  "BlockFormattingContext \<Rightarrow> FloatContext \<times> Heap \<Rightarrow> (FloatContext \<times> Heap) outcome option" where
  "FloatContext_consumeMisfits bfc st =
     (if length (misfits (fst st)) \<noteq> 0
      then (case consumeMisfits_each bfc (misfits (fst st)) ((fst st)\<lparr>misfits := []\<rparr>, snd st) of
              Threw e st \<Rightarrow> Some (Threw e st)
            | Done st \<Rightarrow> FloatContext_consumeMisfits bfc st)
      else Some (Done st))"

definition FloatContext_dropShelf :: "number \<Rightarrow> FloatContext \<Rightarrow> FloatContext" where
  "FloatContext_dropShelf blockOffset this =
     (let this = this\<lparr>leftFloats := FloatSide_dropShelf blockOffset (leftFloats this)\<rparr>
      in this\<lparr>rightFloats := FloatSide_dropShelf blockOffset (rightFloats this)\<rparr>)"

text \<open>
  \<^verbatim>\<open>postLine(line, didBreak)\<close>; of the line box, which belongs to the text module, the
  method reads the block offset and the height.
\<close>

definition FloatContext_postLine ::
  "BlockFormattingContext \<Rightarrow> number \<Rightarrow> number \<Rightarrow> bool \<Rightarrow> FloatContext \<times> Heap
     \<Rightarrow> (FloatContext \<times> Heap) outcome option" where
  "FloatContext_postLine bfc lineBlockOffset lineHeight didBreak st =
     (let this = fst st;
          this = (if didBreak \<or> length (misfits this) \<noteq> 0
                  then FloatContext_dropShelf (cbBlockStart bfc + lineBlockOffset + lineHeight) this
                  else this)
      in FloatContext_consumeMisfits bfc (this, snd st))"

definition FloatContext_preTextContent ::
  "BlockFormattingContext \<Rightarrow> FloatContext \<times> Heap \<Rightarrow> (FloatContext \<times> Heap) outcome option" where
  "FloatContext_preTextContent bfc st = FloatContext_consumeMisfits bfc st"

section \<open>Block containers\<close>

definition isBlockLevel :: "BlockContainer \<Rightarrow> bool" where
  "isBlockLevel box = (\<not> isInline (attrs box))"

text \<open>
  \<^verbatim>\<open>children.length && children[0].isIfcInline()\<close>: a block container is never an
  \<^verbatim>\<open>IfcInline\<close>.
\<close>

definition isBlockContainerOfInlines :: "BlockContainer \<Rightarrow> bool" where
  "isBlockContainerOfInlines box =
     (case children box of IfcInlines ifcs \<Rightarrow> ifcs \<noteq> [] | BlockContainers boxes \<Rightarrow> False)"

definition isBlockContainerOfBlockContainers :: "BlockContainer \<Rightarrow> bool" where
  "isBlockContainerOfBlockContainers box = (\<not> isBlockContainerOfInlines box)"

definition children_length :: "BlockContainer \<Rightarrow> nat" where
  "children_length box =
     (case children box of IfcInlines ifcs \<Rightarrow> length ifcs | BlockContainers boxes \<Rightarrow> length boxes)"

definition the_ifc :: "BlockContainer \<Rightarrow> IfcInline" where
  "the_ifc box = (case children box of IfcInlines ifcs \<Rightarrow> hd ifcs)"

definition canCollapseThrough :: "BlockContainer \<Rightarrow> bool" where
  "canCollapseThrough box =
     (case getBlockSize (style box) of
        Px n \<Rightarrow>
          if strict_ne n 0 then False
          else if isBlockContainerOfInlines box then \<not> ANALYSIS_HAS_TEXT (the_ifc box)
          else children_length box = 0
      | Auto \<Rightarrow>
          if isBlockContainerOfInlines box then \<not> ANALYSIS_HAS_TEXT (the_ifc box)
          else children_length box = 0)"

text \<open>\<^verbatim>\<open>assumePx(v)\<close> throws unless \<open>v\<close> is a number.\<close>

definition assumePx :: "used \<Rightarrow> Error + number" where
  "assumePx v = (case v of Auto \<Rightarrow> Inl UsedValueExpected | Px n \<Rightarrow> Inr n)"

record ContainingBlockToContent =
  c_blockStart :: number
  c_lineLeft :: number
  c_lineRight :: number

definition getContainingBlockToContent :: "Heap \<Rightarrow> BlockContainer \<Rightarrow> Error + ContainingBlockToContent" where
  "getContainingBlockToContent h box =
     (case containingBlock h (box_id box) of
        None \<Rightarrow> Inl NoContainingBlock
      | Some cb \<Rightarrow>
         (case inlineSizeForWritingMode h (areas h cb) (area_writingMode (areas h cb)) of
            Inl e \<Rightarrow> Inl e
          | Inr cbInlineSize \<Rightarrow>
             (case inlineSizeForWritingMode h (areas h (contentArea h (box_id box)))
                     (area_writingMode (areas h cb)) of
                Inl e \<Rightarrow> Inl e
              | Inr cInlineSize \<Rightarrow>
                 (let bLineLeft = lineLeft (areas h (borderArea h (box_id box)));
                      bStart = getBorderBlockStartWidth (style box) + getPaddingBlockStart (style box);
                      lLeft = bLineLeft + getBorderLineLeftWidth (style box) + getPaddingLineLeft (style box);
                      lRight = cbInlineSize - lLeft - cInlineSize
                  in Inr \<lparr>c_blockStart = bStart, c_lineLeft = lLeft, c_lineRight = lRight\<rparr>))))"

definition update_area :: "nat \<Rightarrow> (BlockContainerArea \<Rightarrow> BlockContainerArea) \<Rightarrow> Heap \<Rightarrow> Heap" where
  "update_area a f h = h\<lparr>areas := (areas h)(a := f (areas h a))\<rparr>"

definition setBlockSize :: "BlockContainer \<Rightarrow> number \<Rightarrow> Heap \<Rightarrow> Heap outcome" where
  "setBlockSize box sz h =
     (if containingBlock h (box_id box) = None then Threw NoContainingBlock h
      else
       (let i = box_id box;
            h = update_area (contentArea h i) (\<lambda>a. a\<lparr>blockSize := sz\<rparr>) h;
            h = (if contentArea h i \<noteq> paddingArea h i
                 then update_area (paddingArea h i)
                        (\<lambda>a. a\<lparr>blockSize := sz + getPaddingBlockStart (style box)
                                               + getPaddingBlockEnd (style box)\<rparr>) h
                 else h);
            h = (if paddingArea h i \<noteq> borderArea h i
                 then update_area (borderArea h i)
                        (\<lambda>a. a\<lparr>blockSize := blockSize (areas h (paddingArea h i))
                                               + getBorderBlockStartWidth (style box)
                                               + getBorderBlockEndWidth (style box)\<rparr>) h
                 else h)
        in Done h))"

definition setInlineOuterSize :: "BlockContainer \<Rightarrow> number \<Rightarrow> Heap \<Rightarrow> Heap outcome" where
  "setInlineOuterSize box sz h =
     (if containingBlock h (box_id box) = None then Threw NoContainingBlock h
      else
       (let i = box_id box;
            h = update_area (borderArea h i) (\<lambda>a. a\<lparr>inlineSize := sz\<rparr>) h;
            h = (if paddingArea h i \<noteq> borderArea h i
                 then update_area (paddingArea h i)
                        (\<lambda>a. a\<lparr>inlineSize := sz - getBorderLineLeftWidth (style box)
                                               - getBorderLineRightWidth (style box)\<rparr>) h
                 else h);
            h = (if contentArea h i \<noteq> paddingArea h i
                 then update_area (contentArea h i)
                        (\<lambda>a. a\<lparr>inlineSize := inlineSize (areas h (paddingArea h i))
                                               - getPaddingLineLeft (style box)
                                               - getPaddingLineRight (style box)\<rparr>) h
                 else h)
        in Done h))"

text \<open>
  The constructor of \<^verbatim>\<open>BlockContainerArea\<close> takes \<^verbatim>\<open>x || 0\<close> for each coordinate, and
  \<^verbatim>\<open>clone\<close> goes through it: \<^verbatim>\<open>NaN\<close> becomes 0.
\<close>

definition or_zero :: "number \<Rightarrow> number" where
  "or_zero v = (case v of NaN \<Rightarrow> 0 | Num x \<Rightarrow> Num x)"

definition area_clone :: "BlockContainerArea \<Rightarrow> BlockContainerArea" where
  "area_clone a =
     \<lparr>blockContainer = blockContainer a, blockStart = or_zero (blockStart a),
      blockSize = or_zero (blockSize a), lineLeft = or_zero (lineLeft a),
      inlineSize = or_zero (inlineSize a)\<rparr>"

text \<open>Allocation of a new area object.\<close>

definition new_area :: "BlockContainerArea \<Rightarrow> Heap \<Rightarrow> nat \<times> Heap" where
  "new_area a h = (nextArea h, h\<lparr>areas := (areas h)(nextArea h := a), nextArea := nextArea h + 1\<rparr>)"

text \<open>
  The constructor of \<^verbatim>\<open>BlockContainer\<close>: one area serves as border, padding and content
  area, and there is no containing block yet.
\<close>

definition BlockContainer_new :: "BlockContainer \<Rightarrow> Heap \<Rightarrow> Heap" where
  "BlockContainer_new box h =
     (let (a, h) = new_area \<lparr>blockContainer = box, blockStart = 0, blockSize = 0, lineLeft = 0,
                             inlineSize = 0\<rparr> h
      in h\<lparr>borderArea := (borderArea h)(box_id box := a),
           paddingArea := (paddingArea h)(box_id box := a),
           contentArea := (contentArea h)(box_id box := a),
           containingBlock := (containingBlock h)(box_id box := None)\<rparr>)"

definition fillAreas :: "BlockContainer \<Rightarrow> Heap \<Rightarrow> Heap" where
  "fillAreas box h =
     (let i = box_id box;
          h = (if hasBorder (style box)
               then (let (a, h) = new_area (area_clone (areas h (borderArea h i))) h;
                         h = h\<lparr>paddingArea := (paddingArea h)(i := a),
                               contentArea := (contentArea h)(i := a)\<rparr>;
                         h = update_area a (\<lambda>a. a\<lparr>blockStart := getBorderBlockStartWidth (style box)\<rparr>) h
                     in update_area a (\<lambda>a. a\<lparr>lineLeft := getBorderLineLeftWidth (style box)\<rparr>) h)
               else h)
      in if hasPadding (style box)
         then (let (a, h) = new_area (area_clone (areas h (paddingArea h i))) h;
                   h = h\<lparr>contentArea := (contentArea h)(i := a)\<rparr>;
                   h = update_area a (\<lambda>a. a\<lparr>blockStart := getPaddingBlockStart (style box)\<rparr>) h
               in update_area a (\<lambda>a. a\<lparr>lineLeft := getPaddingLineLeft (style box)\<rparr>) h)
         else h)"

datatype Mode = MinContent | MaxContent | Normal

text \<open>
  The layout context without its formatting context, which the functions below pass
  separately.
\<close>

record LayoutContext =
  lastBlockContainerArea :: nat
  lastPositionedArea :: nat
  mode :: Mode

definition assignContainingBlocks ::
  "BlockContainer \<Rightarrow> LayoutContext \<times> Heap \<Rightarrow> (LayoutContext \<times> Heap) outcome" where
  "assignContainingBlocks box st =
     (let ctx = fst st; h = snd st; i = box_id box in
      if \<not> isRelativeOrStatic (attrs box) \<and> \<not> isAbsolute (attrs box)
      then Threw CouldNotAssignContainingBlock (ctx, h)
      else
       (let h = h\<lparr>containingBlock := (containingBlock h)
                    (i := Some (if isRelativeOrStatic (attrs box) then lastBlockContainerArea ctx
                                else lastPositionedArea ctx))\<rparr>;
            h = fillAreas box h;
            ctx = ctx\<lparr>lastBlockContainerArea := contentArea h i\<rparr>;
            ctx = (if isPositioned (attrs box) then ctx\<lparr>lastPositionedArea := paddingArea h i\<rparr> else ctx)
        in Done (ctx, h)))"

text \<open>
  \<^verbatim>\<open>preBlockContainer\<close>. The second step of the source stores the containing block in the
  \<^verbatim>\<open>IfcInline\<close>, an object the model does not hold.
\<close>

definition preBlockContainer ::
  "BlockContainer \<Rightarrow> LayoutContext \<times> Heap \<Rightarrow> (LayoutContext \<times> Heap) outcome" where
  "preBlockContainer box st = assignContainingBlocks box st"

definition half :: "number \<Rightarrow> number" where
  "half v = (case v of NaN \<Rightarrow> NaN | Num x \<Rightarrow> Num (x / 2))"

text \<open>The margins that \<^verbatim>\<open>doInlineBoxModelForBlockBox\<close> resolves (CSS 2.2, 10.3.3).\<close>

definition resolveInlineMargins :: "BlockContainer \<Rightarrow> Direction \<Rightarrow> number \<Rightarrow> used \<times> used" where
  "resolveInlineMargins box dir cInlineSize =
     (let marginLineLeft = getMarginLineLeft (style box);
          marginLineRight = getMarginLineRight (style box);
          (marginLineLeft, marginLineRight) =
            (case getInlineSize (style box) of
               Auto \<Rightarrow> (marginLineLeft, marginLineRight)
             | Px inlineSz \<Rightarrow>
                (let specifiedInlineSize = inlineSz
                       + getBorderLineLeftWidth (style box)
                       + getPaddingLineLeft (style box)
                       + getPaddingLineRight (style box)
                       + getBorderLineRightWidth (style box)
                       + autoIsZero marginLineLeft
                       + autoIsZero marginLineRight;
                     marginLineLeft = (if specifiedInlineSize > cInlineSize \<and> marginLineLeft = Auto
                                       then Px 0 else marginLineLeft);
                     marginLineRight = (if specifiedInlineSize > cInlineSize \<and> marginLineRight = Auto
                                        then Px 0 else marginLineRight)
                 in case (marginLineLeft, marginLineRight) of
                      (Px l, Px r) \<Rightarrow>
                        if dir = Ltr
                        then (Px l, Px (cInlineSize - (specifiedInlineSize - r)))
                        else (Px (cInlineSize - (specifiedInlineSize - r)), Px r)
                    | (Auto, Px r) \<Rightarrow> (Px (cInlineSize - specifiedInlineSize), Px r)
                    | (Px l, Auto) \<Rightarrow> (Px l, Px (cInlineSize - specifiedInlineSize))
                    | (Auto, Auto) \<Rightarrow>
                        (Px (half (cInlineSize - specifiedInlineSize)),
                         Px (half (cInlineSize - specifiedInlineSize)))))
      in if getInlineSize (style box) = Auto
         then ((if marginLineLeft = Auto then Px 0 else marginLineLeft),
               (if marginLineRight = Auto then Px 0 else marginLineRight))
         else (marginLineLeft, marginLineRight))"

definition doInlineBoxModelForBlockBox :: "BlockContainer \<Rightarrow> Heap \<Rightarrow> Heap outcome" where
  "doInlineBoxModelForBlockBox box h =
     (case containingBlock h (box_id box) of
        None \<Rightarrow> Threw NoContainingBlock h
      | Some cb \<Rightarrow>
         if \<not> isBlockLevel box then Threw NotBlockLevel h
         else
          (case inlineSizeForWritingMode h (areas h cb) (area_writingMode (areas h cb)) of
             Inl e \<Rightarrow> Threw e h
           | Inr cInlineSize \<Rightarrow>
              (case resolveInlineMargins box (area_direction (areas h cb)) cInlineSize of
                 (Px marginLineLeft, Px marginLineRight) \<Rightarrow>
                   (case setInlinePosition box marginLineLeft h of
                      Threw e h \<Rightarrow> Threw e h
                    | Done h \<Rightarrow> setInlineOuterSize box (cInlineSize - marginLineLeft - marginLineRight) h)
               | _ \<Rightarrow> Threw UsedValueExpected h)))"

definition doBlockBoxModelForBlockBox :: "BlockContainer \<Rightarrow> Heap \<Rightarrow> Heap outcome" where
  "doBlockBoxModelForBlockBox box h =
     (if \<not> isBlockLevel box then Threw NotBlockLevel h
      else (case getBlockSize (style box) of
              Auto \<Rightarrow> if children_length box = 0 then setBlockSize box 0 h else Done h
            | Px n \<Rightarrow> setBlockSize box n h))"

section \<open>BlockFormattingContext\<close>

text \<open>\<^verbatim>\<open>a.pop()\<close>: the last element, or \<^verbatim>\<open>undefined\<close> from an empty array.\<close>

definition pop_js :: "number list \<Rightarrow> number \<times> number list" where
  "pop_js a = (if a = [] then (NaN, []) else (List.last a, butlast a))"

text \<open>
  The state of the loop of \<^verbatim>\<open>positionBlockContainers\<close>: the formatting context, the heap
  and the two local variables.
\<close>

record PositionLoop =
  p_this :: BlockFormattingContext
  p_heap :: Heap
  passedMarginLevel :: bool
  levelNeedsPostOffset :: int

definition positionPost :: "number \<Rightarrow> BlockContainer \<Rightarrow> PositionLoop \<Rightarrow> PositionLoop outcome" where
  "positionPost marginV box lp =
     (let this = p_this lp; h = p_heap lp;
          (childSize, sizes) = pop_js (sizeStack this);
          (offset, offsets) = pop_js (offsetStack this);
          this = this\<lparr>sizeStack := sizes, offsetStack := offsets\<rparr>;
          lvl = int (length (sizeStack this)) - 1
      in case (if getBlockSize (style box) = Auto \<and> isBlockContainerOfBlockContainers box
                  \<and> \<not> isBfcRoot (attrs box)
               then setBlockSize box childSize h else Done h) of
           Threw e h \<Rightarrow> Threw e (lp\<lparr>p_this := this, p_heap := h\<rparr>)
         | Done h \<Rightarrow>
            (case BlockContainer_writingMode h box of
               Inl e \<Rightarrow> Threw e (lp\<lparr>p_this := this, p_heap := h\<rparr>)
             | Inr wm \<Rightarrow>
                (case blockSizeForWritingMode h (areas h (borderArea h (box_id box))) wm of
                   Inl e \<Rightarrow> Threw e (lp\<lparr>p_this := this, p_heap := h\<rparr>)
                 | Inr bSize \<Rightarrow>
                    (let this = this\<lparr>sizeStack := set_js (sizeStack this) lvl
                                                    (nth_js (sizeStack this) lvl + bSize)\<rparr>;
                         this = this\<lparr>cbBlockStart := offset + bSize\<rparr>
                     in if lvl < levelNeedsPostOffset lp
                        then Done (lp\<lparr>p_this := this\<lparr>cbBlockStart := cbBlockStart this + marginV\<rparr>,
                                      p_heap := h,
                                      levelNeedsPostOffset := levelNeedsPostOffset lp - 1\<rparr>)
                        else Done (lp\<lparr>p_this := this, p_heap := h\<rparr>)))))"

definition positionPre :: "number \<Rightarrow> BlockContainer \<Rightarrow> PositionLoop \<Rightarrow> PositionLoop outcome" where
  "positionPre marginV box lp =
     (let this = p_this lp; h = p_heap lp;
          hypothetical = hypotheticals this (box_id box);
          lvl = int (length (sizeStack this)) - 1;
          blockOffset = nth_js (sizeStack this) lvl;
          passed = (if \<not> passedMarginLevel lp then margin_level (margin this) = lvl
                    else passedMarginLevel lp);
          blockOffset = (if \<not> passed then blockOffset + marginV else blockOffset);
          blockOffset = (case hypothetical of
                           Some hyp \<Rightarrow> blockOffset - (marginV - hyp)
                         | None \<Rightarrow> blockOffset)
      in case setBlockPosition box blockOffset h of
           Threw e h \<Rightarrow> Threw e (lp\<lparr>p_heap := h, passedMarginLevel := passed\<rparr>)
         | Done h \<Rightarrow>
             Done (lp\<lparr>p_this := this\<lparr>sizeStack := sizeStack this @ [0],
                                      offsetStack := offsetStack this @ [cbBlockStart this]\<rparr>,
                      p_heap := h, passedMarginLevel := passed\<rparr>))"

fun positionItems :: "number \<Rightarrow> StackItem list \<Rightarrow> PositionLoop \<Rightarrow> PositionLoop outcome" where
  "positionItems marginV [] lp = Done lp"
| "positionItems marginV (item # rest) lp =
     (case (case item of Post box \<Rightarrow> positionPost marginV box lp
                       | Pre box \<Rightarrow> positionPre marginV box lp) of
        Threw e lp \<Rightarrow> Threw e lp
      | Done lp \<Rightarrow> positionItems marginV rest lp)"

definition BlockFormattingContext_positionBlockContainers ::
  "BlockFormattingContext \<times> Heap \<Rightarrow> (BlockFormattingContext \<times> Heap) outcome" where
  "BlockFormattingContext_positionBlockContainers st =
     (let this = fst st; h = snd st;
          marginV = MarginCollapseCollection_get (collection (margin this));
          passed = (margin_level (margin this) = int (length (offsetStack this)) - 1);
          needs = int (length (offsetStack this)) - 1;
          this = this\<lparr>sizeStack := set_js (sizeStack this) (margin_level (margin this))
                                       (nth_js (sizeStack this) (margin_level (margin this)) + marginV)\<rparr>;
          this = this\<lparr>cbBlockStart := cbBlockStart this + marginV\<rparr>
      in case positionItems marginV (stack this)
                \<lparr>p_this = this, p_heap = h, passedMarginLevel = passed,
                  levelNeedsPostOffset = needs\<rparr> of
           Threw e lp \<Rightarrow> Threw e (p_this lp, p_heap lp)
         | Done lp \<Rightarrow> Done ((p_this lp)\<lparr>stack := []\<rparr>, p_heap lp))"

text \<open>
  The line breaker, \<^verbatim>\<open>paragraph.createLineboxes(ctx)\<close>, belongs to the text module and is
  a parameter of the layout: it receives the formatting context of the layout context and
  the heap, and returns them as it leaves them.
\<close>

type_synonym TextLayout =
  "IfcInline \<Rightarrow> LayoutContext \<Rightarrow> BlockFormattingContext \<times> Heap
     \<Rightarrow> (BlockFormattingContext \<times> Heap) outcome"

definition BlockContainer_doTextLayout ::
  "TextLayout \<Rightarrow> BlockContainer \<Rightarrow> LayoutContext \<Rightarrow> BlockFormattingContext \<times> Heap
     \<Rightarrow> (BlockFormattingContext \<times> Heap) outcome" where
  "BlockContainer_doTextLayout createLineboxes box ctx st =
     (if \<not> isBlockContainerOfInlines box then Threw ChildrenAreBlockContainers st
      else
       (let ifc = the_ifc box
        in case (if ANALYSIS_HAS_TEXT ifc \<or> ANALYSIS_HAS_FLOATS ifc
                 then createLineboxes ifc ctx st else Done st) of
             Threw e st \<Rightarrow> Threw e st
           | Done st \<Rightarrow>
              (if getBlockSize (style box) = Auto
               then (case setBlockSize box (paragraphHeight (snd st) (ifc_id ifc)) (snd st) of
                       Threw e h \<Rightarrow> Threw e (fst st, h)
                     | Done h \<Rightarrow> Done (fst st, h))
               else Done st)))"

text \<open>
  \<^verbatim>\<open>boxStart(box, ctx)\<close>. The formatting context of \<^verbatim>\<open>ctx\<close> is \<^verbatim>\<open>this\<close> itself, or,
  when the box is the root of a new formatting context, that new context; the state is
  \<^verbatim>\<open>this\<close>, the new context if there is one, and the heap.
\<close>

definition startMargin ::
  "BlockContainer \<Rightarrow> number \<Rightarrow> number \<Rightarrow> bool \<Rightarrow> BlockFormattingContext \<times> Heap
     \<Rightarrow> (BlockFormattingContext \<times> Heap) outcome" where
  "startMargin box marginBlockStart floatBottom adjoinsPrevious st =
     (if adjoinsPrevious
      then Done ((fst st)\<lparr>margin := (margin (fst st))
                   \<lparr>collection := MarginCollapseCollection_add marginBlockStart
                                    (collection (margin (fst st)))\<rparr>\<rparr>, snd st)
      else (case BlockFormattingContext_positionBlockContainers st of
              Threw e st \<Rightarrow> Threw e st
            | Done st \<Rightarrow>
               (let this = fst st; c = floatBottom - cbBlockStart this
                in Done (this\<lparr>margin :=
                           \<lparr>margin_level = level this, collection = MarginCollapseCollection_new c,
                            clearanceAtLevel = (if canCollapseThrough box then Some (level this)
                                                else None)\<rparr>\<rparr>, snd st))))"

definition freshMargin :: "BlockFormattingContext \<Rightarrow> BlockFormattingContext" where
  "freshMargin this =
     this\<lparr>margin := \<lparr>margin_level = level this, collection = MarginCollapseCollection_new 0,
                      clearanceAtLevel = None\<rparr>\<rparr>"

definition BlockFormattingContext_boxStart ::
  "TextLayout \<Rightarrow> BlockContainer \<Rightarrow> LayoutContext
     \<Rightarrow> BlockFormattingContext \<times> BlockFormattingContext option \<times> Heap
     \<Rightarrow> (BlockFormattingContext \<times> BlockFormattingContext option \<times> Heap) outcome" where
  "BlockFormattingContext_boxStart createLineboxes box ctx st =
     (let this = fst st; inner = fst (snd st); h = snd (snd st) in
      case getContainingBlockToContent h box of
        Inl e \<Rightarrow> Threw e st
      | Inr cb \<Rightarrow>
         (case assumePx (getMarginBlockStart (style box)) of
            Inl e \<Rightarrow> Threw e st
          | Inr marginBlockStart \<Rightarrow>
             (let paddingBlockStart = getPaddingBlockStart (style box);
                  borderBlockStartWidth = getBorderBlockStartWidth (style box);
                  floatBottom = 0;
                  floatBottom =
                    (case fctx this of
                       Some f \<Rightarrow>
                         if clear (style box) = ClearLeft \<or> clear (style box) = ClearBoth
                         then Math_max floatBottom (FloatContext_getLeftBottom f) else floatBottom
                     | None \<Rightarrow> floatBottom);
                  floatBottom =
                    (case fctx this of
                       Some f \<Rightarrow>
                         if clear (style box) = ClearRight \<or> clear (style box) = ClearBoth
                         then Math_max floatBottom (FloatContext_getRightBottom f) else floatBottom
                     | None \<Rightarrow> floatBottom);
                  clearance =
                    (if clear (style box) \<noteq> ClearNone
                     then Math_max 0
                            (floatBottom -
                               (cbBlockStart this +
                                MarginCollapseCollection_get
                                  (MarginCollapseCollection_add marginBlockStart
                                     (MarginCollapseCollection_clone (collection (margin this))))))
                     else 0);
                  adjoinsPrevious = strict_eq clearance 0;
                  adjoinsNext = (strict_eq paddingBlockStart 0 \<and> strict_eq borderBlockStartWidth 0)
              in if \<not> isBlockLevel box then Threw InlineEncountered st
                 else
                  (case startMargin box marginBlockStart floatBottom adjoinsPrevious (this, h) of
                     Threw e (this, h) \<Rightarrow> Threw e (this, inner, h)
                   | Done (this, h) \<Rightarrow>
                      (let this = this\<lparr>bfc_last := Some LastStart, level := level this + 1,
                                         cbLineLeft := cbLineLeft this + c_lineLeft cb,
                                         cbLineRight := cbLineRight this + c_lineRight cb,
                                         stack := stack this @ [Pre box]\<rparr>;
                           this = (if isBlockContainerOfInlines box
                                   then this\<lparr>cbBlockStart := cbBlockStart this +
                                          (c_blockStart cb +
                                           MarginCollapseCollection_get (collection (margin this)))\<rparr>
                                   else this);
                           this = this\<lparr>fctx := map_option (FloatContext_boxStart this) (fctx this)\<rparr>;
                           laidOut =
                             (if isBlockContainerOfInlines box
                              then (case inner of
                                      None \<Rightarrow>
                                        (case BlockContainer_doTextLayout createLineboxes box ctx (this, h) of
                                           Threw e (this, h) \<Rightarrow> Threw e (this, inner, h)
                                         | Done (this, h) \<Rightarrow> Done (this, inner, h))
                                    | Some b \<Rightarrow>
                                        (case BlockContainer_doTextLayout createLineboxes box ctx (b, h) of
                                           Threw e (b, h) \<Rightarrow> Threw e (this, Some b, h)
                                         | Done (b, h) \<Rightarrow> Done (this, Some b, h)))
                              else Done (this, inner, h))
                       in case laidOut of
                            Threw e st \<Rightarrow> Threw e st
                          | Done (this, inner, h) \<Rightarrow>
                             (let this = (if isBlockContainerOfInlines box
                                          then this\<lparr>cbBlockStart := cbBlockStart this -
                                                 (c_blockStart cb +
                                                  MarginCollapseCollection_get (collection (margin this)))\<rparr>
                                          else this)
                              in if \<not> adjoinsNext
                                 then (case BlockFormattingContext_positionBlockContainers (this, h) of
                                         Threw e (this, h) \<Rightarrow> Threw e (this, inner, h)
                                       | Done (this, h) \<Rightarrow> Done (freshMargin this, inner, h))
                                 else Done (this, inner, h)))))))"

definition BlockFormattingContext_boxEnd ::
  "BlockContainer \<Rightarrow> BlockFormattingContext \<times> Heap \<Rightarrow> (BlockFormattingContext \<times> Heap) outcome" where
  "BlockFormattingContext_boxEnd box st =
     (let this = fst st; h = snd st in
      case getContainingBlockToContent h box of
        Inl e \<Rightarrow> Threw e st
      | Inr cb \<Rightarrow>
         (let adjoins = (strict_eq (getPaddingBlockEnd (style box)) 0 \<and>
                         strict_eq (getBorderBlockEndWidth (style box)) 0 \<and>
                         (case clearanceAtLevel (margin this) of
                            None \<Rightarrow> True
                          | Some l \<Rightarrow> level this > l))
          in case assumePx (getMarginBlockEnd (style box)) of
               Inl e \<Rightarrow> Threw e st
             | Inr marginBlockEnd \<Rightarrow>
                if \<not> isBlockLevel box then Threw InlineEncountered st
                else
                 (let adjoins = (if adjoins
                                 then (if bfc_last this = Some LastStart then canCollapseThrough box
                                       else getBlockSize (style box) = Auto)
                                 else adjoins);
                      this = this\<lparr>stack := stack this @ [Post box], level := level this - 1,
                                    cbLineLeft := cbLineLeft this - c_lineLeft cb,
                                    cbLineRight := cbLineRight this - c_lineRight cb\<rparr>
                  in case (if \<not> adjoins
                           then (case BlockFormattingContext_positionBlockContainers (this, h) of
                                   Threw e st \<Rightarrow> Threw e st
                                 | Done (this, h) \<Rightarrow> Done (freshMargin this, h))
                           else Done (this, h)) of
                       Threw e st \<Rightarrow> Threw e st
                     | Done (this, h) \<Rightarrow>
                        (let this = (if bfc_last this = Some LastStart
                                     then this\<lparr>hypotheticals := (hypotheticals this)
                                            (box_id box \<mapsto>
                                               MarginCollapseCollection_get (collection (margin this)))\<rparr>
                                     else this);
                             this = this\<lparr>margin := (margin this)
                                      \<lparr>collection := MarginCollapseCollection_add marginBlockEnd
                                                       (collection (margin this))\<rparr>\<rparr>;
                             this = (if level this < margin_level (margin this)
                                     then this\<lparr>margin := (margin this)\<lparr>margin_level := level this\<rparr>\<rparr>
                                     else this)
                         in Done (this\<lparr>bfc_last := Some LastEnd\<rparr>, h)))))"

definition BlockFormattingContext_ensureFloatContext ::
  "number \<Rightarrow> BlockFormattingContext \<Rightarrow> BlockFormattingContext" where
  "BlockFormattingContext_ensureFloatContext blockOffset this =
     (case fctx this of
        Some f \<Rightarrow> this
      | None \<Rightarrow> this\<lparr>fctx := Some (FloatContext_new blockOffset)\<rparr>)"

definition BlockFormattingContext_finalize ::
  "BlockContainer \<Rightarrow> BlockFormattingContext \<times> Heap \<Rightarrow> (BlockFormattingContext \<times> Heap) outcome" where
  "BlockFormattingContext_finalize box st =
     (if \<not> isBfcRoot (attrs box) then Threw BfcRootsOnly st
      else
       (case BlockFormattingContext_positionBlockContainers st of
          Threw e st \<Rightarrow> Threw e st
        | Done (this, h) \<Rightarrow>
           (if getBlockSize (style box) = Auto
            then
             (case (if isBlockContainerOfInlines box
                    then (case BlockContainer_writingMode h box of
                            Inl e \<Rightarrow> Inl e
                          | Inr wm \<Rightarrow>
                              blockSizeForWritingMode h (areas h (contentArea h (box_id box))) wm)
                    else Inr 0) of
                Inl e \<Rightarrow> Threw e (this, h)
              | Inr lineboxHeight \<Rightarrow>
                 (case setBlockSize box
                         (Math_max (Math_max lineboxHeight (cbBlockStart this))
                            (case fctx this of
                               Some f \<Rightarrow> FloatContext_getBothBottom f
                             | None \<Rightarrow> 0)) h of
                    Threw e h \<Rightarrow> Threw e (this, h)
                  | Done h \<Rightarrow> Done (this, h)))
            else Done (this, h))))"

section \<open>layoutBlockBox\<close>

text \<open>
  The part of \<^verbatim>\<open>layoutBlockBox\<close> before the children: containing blocks, the two box
  models, the new formatting context of a root, and the box start.
\<close>

definition layoutBlockBox_pre ::
  "TextLayout \<Rightarrow> BlockContainer \<Rightarrow> LayoutContext \<Rightarrow> BlockFormattingContext \<times> Heap
     \<Rightarrow> (LayoutContext \<times> BlockFormattingContext \<times> BlockFormattingContext option \<times> Heap) outcome" where
  "layoutBlockBox_pre createLineboxes box ctx st =
     (let bfc = fst st; h = snd st in
      if \<not> isBlockLevel box then Threw NotBlockLevel (ctx, bfc, None, h)
      else
       (case preBlockContainer box (ctx, h) of
          Threw e (cctx, h) \<Rightarrow> Threw e (cctx, bfc, None, h)
        | Done (cctx, h) \<Rightarrow>
           (case doInlineBoxModelForBlockBox box h of
              Threw e h \<Rightarrow> Threw e (cctx, bfc, None, h)
            | Done h \<Rightarrow>
               (case doBlockBoxModelForBlockBox box h of
                  Threw e h \<Rightarrow> Threw e (cctx, bfc, None, h)
                | Done h \<Rightarrow>
                   (case (if isBfcRoot (attrs box)
                          then (case BlockContainer_writingMode h box of
                                  Inl e \<Rightarrow> Inl e
                                | Inr wm \<Rightarrow>
                                   (case inlineSizeForWritingMode h
                                           (areas h (contentArea h (box_id box))) wm of
                                      Inl e \<Rightarrow> Inl e
                                    | Inr inlineSz \<Rightarrow> Inr (Some (BlockFormattingContext_new inlineSz))))
                          else Inr None) of
                      Inl e \<Rightarrow> Threw e (cctx, bfc, None, h)
                    | Inr inner \<Rightarrow>
                       (case BlockFormattingContext_boxStart createLineboxes box cctx (bfc, inner, h) of
                          Threw e (bfc, inner, h) \<Rightarrow> Threw e (cctx, bfc, inner, h)
                        | Done (bfc, inner, h) \<Rightarrow> Done (cctx, bfc, inner, h)))))))"

text \<open>
  The part after the children: a root finalizes its own formatting context, and the box
  ends in the formatting context it started in.
\<close>

definition layoutBlockBox_post ::
  "BlockContainer \<Rightarrow> BlockFormattingContext \<times> BlockFormattingContext option \<times> Heap
     \<Rightarrow> (BlockFormattingContext \<times> Heap) outcome" where
  "layoutBlockBox_post box st =
     (let bfc = fst st; inner = fst (snd st); h = snd (snd st)
      in case (if isBfcRoot (attrs box)
               then (case inner of
                       Some b \<Rightarrow>
                         (case BlockFormattingContext_finalize box (b, h) of
                            Threw e (b, h) \<Rightarrow> Threw e (bfc, h)
                          | Done (b, h) \<Rightarrow> Done (bfc, h))
                     | None \<Rightarrow> BlockFormattingContext_finalize box (bfc, h))
               else Done (bfc, h)) of
           Threw e st \<Rightarrow> Threw e st
         | Done st \<Rightarrow> BlockFormattingContext_boxEnd box st)"

fun layoutBlockBox ::
  "TextLayout \<Rightarrow> BlockContainer \<Rightarrow> LayoutContext \<Rightarrow> BlockFormattingContext \<times> Heap
     \<Rightarrow> (BlockFormattingContext \<times> Heap) outcome"
and layoutChildren ::
  "TextLayout \<Rightarrow> BlockContainer list \<Rightarrow> LayoutContext \<Rightarrow> BlockFormattingContext \<times> Heap
     \<Rightarrow> (BlockFormattingContext \<times> Heap) outcome" where
  "layoutBlockBox createLineboxes (BlockContainer i sty att chs) ctx st =
     (case layoutBlockBox_pre createLineboxes (BlockContainer i sty att chs) ctx st of
        Threw e (cctx, bfc, inner, h) \<Rightarrow> Threw e (bfc, h)
      | Done (cctx, bfc, inner, h) \<Rightarrow>
         (case (case chs of
                  IfcInlines ifcs \<Rightarrow> Done (bfc, inner, h)
                | BlockContainers boxes \<Rightarrow>
                   (case inner of
                      None \<Rightarrow>
                        (case layoutChildren createLineboxes boxes cctx (bfc, h) of
                           Threw e (bfc, h) \<Rightarrow> Threw e (bfc, None, h)
                         | Done (bfc, h) \<Rightarrow> Done (bfc, None, h))
                    | Some b \<Rightarrow>
                        (case layoutChildren createLineboxes boxes cctx (b, h) of
                           Threw e (b, h) \<Rightarrow> Threw e (bfc, Some b, h)
                         | Done (b, h) \<Rightarrow> Done (bfc, Some b, h)))) of
            Threw e (bfc, inner, h) \<Rightarrow> Threw e (bfc, h)
          | Done st \<Rightarrow> layoutBlockBox_post (BlockContainer i sty att chs) st))"
| "layoutChildren createLineboxes [] ctx st = Done st"
| "layoutChildren createLineboxes (child # rest) ctx st =
     (case layoutBlockBox createLineboxes child ctx st of
        Threw e st \<Rightarrow> Threw e st
      | Done st \<Rightarrow> layoutChildren createLineboxes rest ctx st)"

section \<open>Reachable states of a FloatSide\<close>

text \<open>
  The states a \<^verbatim>\<open>FloatSide\<close> takes between the calls a layout makes: it is constructed
  at a block offset, the formatting context moves its shelf at each box start and drops it
  after lines and misfits, and floats are placed on it. The block offsets passed in are
  numbers; the box, the vacancy and the heap of a placement are arbitrary, and the state
  left by a placement that throws is reachable too.
\<close>

inductive FloatSide_reachable :: "FloatSide \<Rightarrow> bool" where
  reach_new: "FloatSide_reachable (FloatSide_new (Num b))"
| reach_boxStart: "FloatSide_reachable s \<Longrightarrow> FloatSide_reachable (FloatSide_boxStart (Num b) s)"
| reach_dropShelf: "FloatSide_reachable s \<Longrightarrow> FloatSide_reachable (FloatSide_dropShelf (Num b) s)"
| reach_placeFloat:
    "FloatSide_reachable s \<Longrightarrow>
     FloatSide_reachable (fst (state_of (FloatSide_placeFloat box vacancy lineLeft0 lineRight0 (s, h))))"

definition lengths_equal :: "FloatSide \<Rightarrow> bool" where
  "lengths_equal s \<longleftrightarrow>
     length (blockOffsets s) = length (inlineSizes s) \<and>
     length (blockOffsets s) = length (inlineOffsets s) \<and>
     length (blockOffsets s) = length (floatCounts s)"

text \<open>
  The invariant behind the track claims: the block offsets are numbers in strictly
  increasing order, the four arrays have one length, and the shelf is a number that lies in
  the track \<open>shelfTrackIndex\<close> (which is \<open>-1\<close> when the shelf is above the first track).
\<close>

definition FloatSide_inv :: "FloatSide \<Rightarrow> bool" where
  "FloatSide_inv s \<longleftrightarrow>
     lengths_equal s \<and>
     (\<exists>xs b. blockOffsets s = map Num xs \<and> xs \<noteq> [] \<and> sorted_wrt (<) xs \<and>
        shelfBlockOffset s = Num b \<and>
        - 1 \<le> shelfTrackIndex s \<and> shelfTrackIndex s < int (length xs) \<and>
        (0 \<le> shelfTrackIndex s \<longrightarrow> xs ! nat (shelfTrackIndex s) \<le> b) \<and>
        (shelfTrackIndex s + 1 < int (length xs) \<longrightarrow> b < xs ! nat (shelfTrackIndex s + 1)))"

text \<open>
  What the two track claims need of the sum \<^verbatim>\<open>shelfBlockOffset + blockSize\<close> of a
  placement. \<open>not_below\<close>: adding a positive block size to the shelf gives a number that is
  not less than the shelf, which holds of a rounded sum. \<open>above\<close>: it gives a number greater
  than the shelf, which holds of an exact sum, and of a rounded sum unless the block size is
  too small to change the shelf.
\<close>

definition not_below :: "(number \<Rightarrow> number \<Rightarrow> number) \<Rightarrow> number \<Rightarrow> number \<Rightarrow> bool" where
  "not_below add x y \<longleftrightarrow> (0 < y \<longrightarrow> x \<le> add x y)"

definition above :: "(number \<Rightarrow> number \<Rightarrow> number) \<Rightarrow> number \<Rightarrow> number \<Rightarrow> bool" where
  "above add x y \<longleftrightarrow> (0 < y \<longrightarrow> x < add x y)"

text \<open>
  The states a \<^verbatim>\<open>FloatSide\<close> takes when the sums of each placement are computed by some
  \<open>add\<close> and \<open>sub\<close>, of which \<open>ok\<close> constrains the sum of the shelf and the block size of the
  float.
\<close>

inductive FloatSide_reachable_with ::
  "((number \<Rightarrow> number \<Rightarrow> number) \<Rightarrow> number \<Rightarrow> number \<Rightarrow> bool) \<Rightarrow> FloatSide \<Rightarrow> bool"
  for ok :: "(number \<Rightarrow> number \<Rightarrow> number) \<Rightarrow> number \<Rightarrow> number \<Rightarrow> bool" where
  with_new: "FloatSide_reachable_with ok (FloatSide_new (Num b))"
| with_boxStart:
    "FloatSide_reachable_with ok s \<Longrightarrow> FloatSide_reachable_with ok (FloatSide_boxStart (Num b) s)"
| with_dropShelf:
    "FloatSide_reachable_with ok s \<Longrightarrow> FloatSide_reachable_with ok (FloatSide_dropShelf (Num b) s)"
| with_placeFloat:
    "FloatSide_reachable_with ok s \<Longrightarrow>
     ok add (shelfBlockOffset s) (placeFloat_blockSize_with add box h) \<Longrightarrow>
     FloatSide_reachable_with ok
       (fst (state_of (FloatSide_placeFloat_with add sub box vacancy lineLeft0 lineRight0 (s, h))))"

text \<open>
  The states a \<^verbatim>\<open>FloatSide\<close> takes in the double arithmetic of the source: the block
  offsets passed in are representable, and the sums of a placement are \<open>double_add\<close> and
  \<open>double_sub\<close>.
\<close>

inductive FloatSide_reachable_double :: "FloatSide \<Rightarrow> bool" where
  double_new: "representable b \<Longrightarrow> FloatSide_reachable_double (FloatSide_new (Num b))"
| double_boxStart:
    "FloatSide_reachable_double s \<Longrightarrow> representable b \<Longrightarrow>
     FloatSide_reachable_double (FloatSide_boxStart (Num b) s)"
| double_dropShelf:
    "FloatSide_reachable_double s \<Longrightarrow> representable b \<Longrightarrow>
     FloatSide_reachable_double (FloatSide_dropShelf (Num b) s)"
| double_placeFloat:
    "FloatSide_reachable_double s \<Longrightarrow>
     FloatSide_reachable_double
       (fst (state_of (FloatSide_placeFloat_with double_add double_sub box vacancy lineLeft0 lineRight0
          (s, h))))"

text \<open>
  The invariant when sums are rounded: as \<open>FloatSide_inv\<close>, but the block offsets may
  repeat, and the shelf may lie on the top of the track after \<open>shelfTrackIndex\<close>.
\<close>

definition FloatSide_inv_rounded :: "FloatSide \<Rightarrow> bool" where
  "FloatSide_inv_rounded s \<longleftrightarrow>
     lengths_equal s \<and>
     (\<exists>xs b. blockOffsets s = map Num xs \<and> xs \<noteq> [] \<and> sorted_wrt (\<le>) xs \<and>
        shelfBlockOffset s = Num b \<and>
        - 1 \<le> shelfTrackIndex s \<and> shelfTrackIndex s < int (length xs) \<and>
        (0 \<le> shelfTrackIndex s \<longrightarrow> xs ! nat (shelfTrackIndex s) \<le> b) \<and>
        (shelfTrackIndex s + 1 < int (length xs) \<longrightarrow> b \<le> xs ! nat (shelfTrackIndex s + 1)))"

text \<open>
  What \<^verbatim>\<open>placeFloat\<close> needs of the heap to resolve writing modes: the border area of the
  box belongs to the box, the box has a containing block, and so has the block container
  that owns this containing block.
\<close>

definition hasContainingBlock :: "Heap \<Rightarrow> BlockContainer \<Rightarrow> bool" where
  "hasContainingBlock h box \<longleftrightarrow>
     box_id (blockContainer (areas h (borderArea h (box_id box)))) = box_id box \<and>
     (\<exists>cb. containingBlock h (box_id box) = Some cb \<and>
           containingBlock h (box_id (blockContainer (areas h cb))) \<noteq> None)"

text \<open>
  A property of every track, stated of its inline size, its inline offset and its float
  count.
\<close>

definition tracks_all :: "(number \<Rightarrow> number \<Rightarrow> number \<Rightarrow> bool) \<Rightarrow> FloatSide \<Rightarrow> bool" where
  "tracks_all P s \<longleftrightarrow>
     (\<forall>i < length (floatCounts s). P (inlineSizes s ! i) (inlineOffsets s ! i) (floatCounts s ! i))"

text \<open>
  The outer inline size of a float, as \<^verbatim>\<open>placeFloat\<close> computes it in double arithmetic
  for a track without floats (the sum of its margin on the side of the float, its border
  box and its other margin), is positive. The margin on the side of the float is a
  representable number, as every number of the source is.
\<close>

definition outer_size_positive :: "BlockContainer \<Rightarrow> Heap \<Rightarrow> bool" where
  "outer_size_positive box h \<longleftrightarrow>
     (let margins = getMarginsAutoIsZero box;
          marginOffset = (if float (style box) = FloatLeft then m_lineLeft margins else m_lineRight margins);
          marginEnd = (if float (style box) = FloatLeft then m_lineRight margins else m_lineLeft margins)
      in representable_number marginOffset \<and>
         0 < double_add (double_add marginOffset (area_width (areas h (borderArea h (box_id box)))))
               marginEnd)"

text \<open>
  A placement is after the edges of the floats on its tracks when, on each track the float
  covers that already holds a float, the offset \<open>cbOffset\<close> taken from the vacancy is not
  before the edge of the floats recorded there, which is the number
  \<open>inlineSizes[t] - inlineOffsets[t]\<close>. The tracks the float covers are those from
  \<open>startTrack\<close> up to \<open>endTrack\<close>, after the splits of the placement.
\<close>

definition placement_after_edges :: "BlockContainer \<Rightarrow> IfcVacancy \<Rightarrow> Heap \<Rightarrow> FloatSide \<Rightarrow> bool" where
  "placement_after_edges box vacancy h s \<longleftrightarrow>
     (let bSize = placeFloat_blockSize_with double_add box h;
          (s1, startTrack, endTrack) = placeFloat_split_with double_add bSize s;
          cbOffset = (if float (style box) = FloatLeft then v_leftOffset vacancy else v_rightOffset vacancy)
      in \<forall>t \<in> set [startTrack .. endTrack - 1].
            0 < nth_js (floatCounts s1) t \<longrightarrow>
            nth_js (inlineSizes s1) t - nth_js (inlineOffsets s1) t \<le> cbOffset)"

definition placement_clear :: "BlockContainer \<Rightarrow> IfcVacancy \<Rightarrow> Heap \<Rightarrow> FloatSide \<Rightarrow> bool" where
  "placement_clear box vacancy h s \<longleftrightarrow>
     outer_size_positive box h \<and> placement_after_edges box vacancy h s"


text \<open>
  The order in which a shelf moves: it stays, or it moves to a greater block offset.
\<close>

definition shelf_le :: "number \<Rightarrow> number \<Rightarrow> bool" where
  "shelf_le a b \<longleftrightarrow> a = b \<or> a < b"

definition shelves_le :: "FloatContext \<Rightarrow> FloatContext \<Rightarrow> bool" where
  "shelves_le this this' \<longleftrightarrow>
     shelf_le (shelfBlockOffset (leftFloats this)) (shelfBlockOffset (leftFloats this')) \<and>
     shelf_le (shelfBlockOffset (rightFloats this)) (shelfBlockOffset (rightFloats this'))"

section \<open>Example inputs\<close>

text \<open>
  A style without margins, borders or padding, and a heap in which box 0 is a container
  whose area, at address 0, is the containing block of every box; the border area of box
  \<open>i\<close> is at address \<open>i\<close>. \<open>example_float fl i\<close> is a float with identity \<open>i\<close>, and
  \<open>example_heap w hh\<close> gives the floats a border box \<open>w\<close> wide and \<open>hh\<close> high.
\<close>

definition example_style :: Style where
  "example_style =
     \<lparr>float = FloatNone, clear = ClearNone, writingMode = HorizontalTb, direction = Ltr,
      getMarginBlockStart = Px 0, getMarginBlockEnd = Px 0,
      getMarginLineLeft = Px 0, getMarginLineRight = Px 0,
      getPaddingBlockStart = 0, getPaddingBlockEnd = 0,
      getPaddingLineLeft = 0, getPaddingLineRight = 0,
      getBorderBlockStartWidth = 0, getBorderBlockEndWidth = 0,
      getBorderLineLeftWidth = 0, getBorderLineRightWidth = 0,
      getBlockSize = Auto, getInlineSize = Auto, hasBorder = False, hasPadding = False\<rparr>"

definition example_attrs :: Attrs where
  "example_attrs =
     \<lparr>isAnonymous = False, isInline = False, isBfcRoot = False, isFloat = False,
      enableLogging = False, isRelativeOrStatic = True, isAbsolute = False, isPositioned = False\<rparr>"

definition example_container :: BlockContainer where
  "example_container = BlockContainer 0 example_style example_attrs (BlockContainers [])"

definition example_float :: "Float \<Rightarrow> nat \<Rightarrow> BlockContainer" where
  "example_float fl i =
     BlockContainer i (example_style\<lparr>float := fl\<rparr>)
       (example_attrs\<lparr>isBfcRoot := True, isFloat := True\<rparr>) (BlockContainers [])"

definition example_heap :: "rat \<Rightarrow> rat \<Rightarrow> Heap" where
  "example_heap w hh =
     \<lparr>areas = (\<lambda>a. if a = 0
                   then \<lparr>blockContainer = example_container, blockStart = 0, blockSize = 0,
                         lineLeft = 0, inlineSize = Num 100\<rparr>
                   else \<lparr>blockContainer = example_float FloatLeft a, blockStart = 0,
                         blockSize = Num hh, lineLeft = 0, inlineSize = Num w\<rparr>),
      nextArea = 100, borderArea = (\<lambda>i. i), paddingArea = (\<lambda>i. i), contentArea = (\<lambda>i. i),
      containingBlock = (\<lambda>i. Some 0), paragraphHeight = (\<lambda>i. 0)\<rparr>"

definition example_vacancy :: IfcVacancy where
  "example_vacancy =
     \<lparr>v_leftOffset = 0, v_rightOffset = 0, v_inlineSize = Num 100, v_blockOffset = Num 0,
      v_leftFloatCount = 0, v_rightFloatCount = 0\<rparr>"

text \<open>
  A formatting context 100 wide whose block cursor is at 0, and a float context that was
  created at block offset 50 in it and has then seen a box start.
\<close>

definition example_bfc :: BlockFormattingContext where
  "example_bfc = BlockFormattingContext_new (Num 100)"

definition example_fctx_above :: FloatContext where
  "example_fctx_above = FloatContext_boxStart example_bfc (FloatContext_new (Num 50))"

text \<open>
  A placement whose block size is lost in the sum with the shelf. The border box of
  \<open>rounding_float\<close> is 1.1 high and its block margins are 2.2 and -3.3 (the doubles nearest
  to these numbers); in double arithmetic its block size is \<open>2\<^sup>-\<^sup>5\<^sup>1\<close>. It is placed on a
  fresh side whose shelf is at 10, once with the sums of the source and once with exact
  sums.
\<close>

definition rounding_float :: BlockContainer where
  "rounding_float =
     BlockContainer 2
       (example_style\<lparr>float := FloatLeft,
          getMarginBlockStart := Px (Num (round_double (22 / 10))),
          getMarginBlockEnd := Px (Num (round_double (- 33 / 10)))\<rparr>)
       (example_attrs\<lparr>isBfcRoot := True, isFloat := True\<rparr>) (BlockContainers [])"

definition rounding_heap :: Heap where
  "rounding_heap =
     \<lparr>areas = (\<lambda>a. if a = 0
                   then \<lparr>blockContainer = example_container, blockStart = 0, blockSize = 0,
                         lineLeft = 0, inlineSize = Num 100\<rparr>
                   else \<lparr>blockContainer = rounding_float, blockStart = 0,
                         blockSize = Num (round_double (11 / 10)), lineLeft = 0,
                         inlineSize = Num 60\<rparr>),
      nextArea = 100, borderArea = (\<lambda>i. i), paddingArea = (\<lambda>i. i), contentArea = (\<lambda>i. i),
      containingBlock = (\<lambda>i. Some 0), paragraphHeight = (\<lambda>i. 0)\<rparr>"

definition rounding_side :: FloatSide where
  "rounding_side =
     fst (state_of (FloatSide_placeFloat_with double_add double_sub rounding_float
            (example_vacancy\<lparr>v_blockOffset := Num 10\<rparr>) (Num 0) (Num 0)
            (FloatSide_new (Num 10), rounding_heap)))"

definition exact_side :: FloatSide where
  "exact_side =
     fst (state_of (FloatSide_placeFloat_with (+) (-) rounding_float
            (example_vacancy\<lparr>v_blockOffset := Num 10\<rparr>) (Num 0) (Num 0)
            (FloatSide_new (Num 10), rounding_heap)))"

text \<open>
  Two left floats, 60 wide and 50 high, placed in double arithmetic. The first is placed at
  block offset 0 in a box whose content starts at inline offset 50; then a box starts at
  block offset 50 and the second is placed there at inline offset 0.
\<close>

definition two_floats_first :: FloatSide where
  "two_floats_first =
     fst (state_of (FloatSide_placeFloat_with double_add double_sub (example_float FloatLeft 2)
            (example_vacancy\<lparr>v_leftOffset := Num 50\<rparr>) (Num 50) (Num 0)
            (FloatSide_new (Num 0), example_heap 60 50)))"

definition two_floats_side :: FloatSide where
  "two_floats_side =
     fst (state_of (FloatSide_placeFloat_with double_add double_sub (example_float FloatLeft 3)
            (example_vacancy\<lparr>v_blockOffset := Num 50\<rparr>) (Num 0) (Num 0)
            (FloatSide_boxStart (Num 50) two_floats_first, example_heap 60 50)))"













text \<open>
  The collapse-through scenario. \<open>collapse_root\<close> establishes a block formatting context,
  and the initial containing block is an area of its own, 100 wide, at address 0. Its only
  child \<open>collapse_parent\<close> has margins 10 and 0 and one child,
  \<open>collapse_child\<close>, which is empty and has margins 20 and 5. Nothing has a border or
  padding, and every block size is \<^verbatim>\<open>auto\<close>. The three boxes are constructed in
  \<open>collapse_heap\<close>, and \<open>collapse_layout\<close> lays out the root.
\<close>

definition collapse_child :: BlockContainer where
  "collapse_child =
     BlockContainer 4 (example_style\<lparr>getMarginBlockStart := Px (Num 20), getMarginBlockEnd := Px (Num 5)\<rparr>)
       example_attrs (BlockContainers [])"

definition collapse_parent :: BlockContainer where
  "collapse_parent =
     BlockContainer 3 (example_style\<lparr>getMarginBlockStart := Px (Num 10), getMarginBlockEnd := Px (Num 0)\<rparr>)
       example_attrs (BlockContainers [collapse_child])"

definition collapse_root :: BlockContainer where
  "collapse_root =
     BlockContainer 2 example_style (example_attrs\<lparr>isBfcRoot := True\<rparr>)
       (BlockContainers [collapse_parent])"

definition initial_heap :: Heap where
  "initial_heap =
     \<lparr>areas = (\<lambda>a. \<lparr>blockContainer = collapse_root, blockStart = 0, blockSize = 0,
                     lineLeft = 0, inlineSize = Num 100\<rparr>),
      nextArea = 1, borderArea = (\<lambda>i. 0), paddingArea = (\<lambda>i. 0), contentArea = (\<lambda>i. 0),
      containingBlock = (\<lambda>i. None), paragraphHeight = (\<lambda>i. 0)\<rparr>"

definition collapse_heap :: Heap where
  "collapse_heap =
     BlockContainer_new collapse_child
       (BlockContainer_new collapse_parent (BlockContainer_new collapse_root initial_heap))"

definition collapse_ctx :: LayoutContext where
  "collapse_ctx = \<lparr>lastBlockContainerArea = 0, lastPositionedArea = 0, mode = Normal\<rparr>"

definition collapse_layout :: "TextLayout \<Rightarrow> (BlockFormattingContext \<times> Heap) outcome" where
  "collapse_layout createLineboxes =
     layoutBlockBox createLineboxes collapse_root collapse_ctx
       (BlockFormattingContext_new (Num 100), collapse_heap)"

definition border_box :: "Heap \<Rightarrow> BlockContainer \<Rightarrow> BlockContainerArea" where
  "border_box h box = areas h (borderArea h (box_id box))"



section \<open>Facts about numbers\<close>

lemma Max_insert_max:
  "finite S \<Longrightarrow> Max (insert (max a b) S) = Max (insert a (insert b S))"
  for a :: "'a::linorder"
  by (cases "S = {}") (simp_all add: max.assoc)

lemma nth_js_map_Num:
  "0 \<le> i \<Longrightarrow> i < int (length xs) \<Longrightarrow> nth_js (map Num xs) i = Num (xs ! nat i)"
  by (simp add: nth_js_def)

section \<open>The collapsed margin\<close>

lemma add_numeric:
  "MarginCollapseCollection_add (Num m) \<lparr>positive = Num p, negative = Num n\<rparr> =
     (if m < 0 then \<lparr>positive = Num p, negative = Num (max n (- m))\<rparr>
      else \<lparr>positive = Num (max p m), negative = Num n\<rparr>)"
  by (simp add: MarginCollapseCollection_add_def zero_number_def)

lemma fold_add_numeric:
  "fold MarginCollapseCollection_add (map Num ms) \<lparr>positive = Num p, negative = Num n\<rparr> =
     \<lparr>positive = Num (Max (insert p {m \<in> set ms. 0 \<le> m})),
      negative = Num (Max (insert n {- m |m. m \<in> set ms \<and> m < 0}))\<rparr>"
proof (induction ms arbitrary: p n)
  case Nil
  show ?case by simp
next
  case (Cons m ms)
  show ?case
  proof (cases "m < 0")
    case True
    have a: "{ma. (ma = m \<or> ma \<in> set ms) \<and> 0 \<le> ma} = {ma \<in> set ms. 0 \<le> ma}"
      using True by auto
    have b: "{- ma |ma. (ma = m \<or> ma \<in> set ms) \<and> ma < 0} =
             insert (- m) {- ma |ma. ma \<in> set ms \<and> ma < 0}"
      using True by auto
    show ?thesis
      using True by (simp add: add_numeric Cons.IH a b Max_insert_max)
  next
    case False
    have a: "{ma. (ma = m \<or> ma \<in> set ms) \<and> 0 \<le> ma} = insert m {ma \<in> set ms. 0 \<le> ma}"
      using False by auto
    have b: "{- ma |ma. (ma = m \<or> ma \<in> set ms) \<and> ma < 0} = {- ma |ma. ma \<in> set ms \<and> ma < 0}"
      using False by auto
    show ?thesis
      using False by (simp add: add_numeric Cons.IH a b Max_insert_max)
  qed
qed

lemma new_zero: "MarginCollapseCollection_new 0 = \<lparr>positive = Num 0, negative = Num 0\<rparr>"
  by (simp add: MarginCollapseCollection_new_def MarginCollapseCollection_add_def zero_number_def)

text \<open>
  C1. A fresh collection returns 0. After adding the margins \<open>ms\<close> (numbers), in the order
  given, to a fresh collection, \<^verbatim>\<open>get()\<close> returns the largest non-negative margin (0 if
  there is none) minus the largest magnitude of a negative margin (0 if there is none).
  The value depends on the set of margins only, so two sequences with the same margins,
  in whatever order, collapse to the same value.
\<close>

theorem margin_collapse_identity:
  "MarginCollapseCollection_get (MarginCollapseCollection_new 0) = Num 0 \<and>
   MarginCollapseCollection_get
      (fold MarginCollapseCollection_add (map Num ms) (MarginCollapseCollection_new 0)) =
     Num (Max (insert 0 {m \<in> set ms. 0 \<le> m}) - Max (insert 0 {- m |m. m \<in> set ms \<and> m < 0})) \<and>
   (\<forall>ms'. set ms' = set ms \<longrightarrow>
      MarginCollapseCollection_get
        (fold MarginCollapseCollection_add (map Num ms') (MarginCollapseCollection_new 0)) =
      MarginCollapseCollection_get
        (fold MarginCollapseCollection_add (map Num ms) (MarginCollapseCollection_new 0)))"
  by (simp add: new_zero fold_add_numeric MarginCollapseCollection_get_def)

theorem margin_collapse_identity_witness:
  "set [30, -5, 20 :: rat] = set [20, -5, 30] \<and>
   MarginCollapseCollection_get
     (fold MarginCollapseCollection_add (map Num [30, -5, 20]) (MarginCollapseCollection_new 0)) =
   MarginCollapseCollection_get
     (fold MarginCollapseCollection_add (map Num [20, -5, 30]) (MarginCollapseCollection_new 0))"
proof -
  have s: "set [30, -5, 20 :: rat] = set [20, -5, 30]" by auto
  from margin_collapse_identity [of "[20, -5, 30]"] s show ?thesis by blast
qed

section \<open>Binary search\<close>

lemma binarySearch_loop_correct:
  assumes "sorted_wrt (<) xs"
    and "0 \<le> l" and "l \<le> r" and "r < int (length xs)"
    and "\<forall>j. j < nat l \<longrightarrow> xs ! j < v"
    and "\<forall>j. nat r < j \<and> j < length xs \<longrightarrow> v < xs ! j"
  shows "l \<le> binarySearch_loop (map Num xs) (Num v) l r \<and>
         binarySearch_loop (map Num xs) (Num v) l r \<le> r + 1 \<and>
         (\<forall>j. j < nat (binarySearch_loop (map Num xs) (Num v) l r) \<longrightarrow> xs ! j < v) \<and>
         (nat (binarySearch_loop (map Num xs) (Num v) l r) < length xs \<longrightarrow>
            v \<le> xs ! nat (binarySearch_loop (map Num xs) (Num v) l r))"
  using assms
proof (induction "map Num xs" "Num v" l r rule: binarySearch_loop.induct)
  case (1 l r)
  define i where "i = (l + r) div 2"
  have il: "l \<le> i" and ir: "i \<le> r" using "1.prems"(2,3) by (auto simp: i_def)
  have i0: "0 \<le> i" and ilen: "i < int (length xs)" using il ir "1.prems" by auto
  have ni: "nat i < length xs" using i0 ilen by linarith
  have ai: "nth_js (map Num xs) i = Num (xs ! nat i)"
    using i0 ilen by (rule nth_js_map_Num)
  have mono: "\<And>j k. j < k \<Longrightarrow> k < length xs \<Longrightarrow> xs ! j < xs ! k"
    using "1.prems"(1) by (simp add: sorted_wrt_nth_less)
  note bs = binarySearch_loop.simps [of "map Num xs" "Num v" l r, folded i_def, unfolded ai]
  consider (lt) "xs ! nat i < v" | (gt) "v < xs ! nat i" | (eq) "xs ! nat i = v"
    by fastforce
  then show ?case
  proof cases
    case lt
    have below: "\<forall>j. j < nat (i + 1) \<longrightarrow> xs ! j < v"
    proof (intro allI impI)
      fix j assume "j < nat (i + 1)"
      then have "j = nat i \<or> j < nat i" using i0 by auto
      then show "xs ! j < v"
        using lt mono [of j "nat i"] ni by auto
    qed
    show ?thesis
    proof (cases "i + 1 > r")
      case True
      then have "i = r" using ir by simp
      then show ?thesis
        using lt True below "1.prems" il bs by (auto simp: less_imp_le)
    next
      case False
      have "nth_js (map Num xs) ((l + r) div 2) < Num v"
        using lt ai by (simp add: i_def)
      from "1.hyps"(1) [OF this _ "1.prems"(1)] False below "1.prems" i0 il
      have ih: "i + 1 \<le> binarySearch_loop (map Num xs) (Num v) (i + 1) r \<and>
         binarySearch_loop (map Num xs) (Num v) (i + 1) r \<le> r + 1 \<and>
         (\<forall>j. j < nat (binarySearch_loop (map Num xs) (Num v) (i + 1) r) \<longrightarrow> xs ! j < v) \<and>
         (nat (binarySearch_loop (map Num xs) (Num v) (i + 1) r) < length xs \<longrightarrow>
            v \<le> xs ! nat (binarySearch_loop (map Num xs) (Num v) (i + 1) r))"
        by (simp add: i_def)
      have "binarySearch_loop (map Num xs) (Num v) l r =
            binarySearch_loop (map Num xs) (Num v) (i + 1) r"
        using bs lt False by simp
      then show ?thesis using ih il by simp
    qed
  next
    case gt
    have above: "\<forall>j. nat (i - 1) < j \<and> j < length xs \<longrightarrow> v < xs ! j"
    proof (intro allI impI)
      fix j assume a: "nat (i - 1) < j \<and> j < length xs"
      then have "j = nat i \<or> nat i < j" using i0 by auto
      then show "v < xs ! j"
        using gt mono [of "nat i" j] a by auto
    qed
    show ?thesis
    proof (cases "i - 1 < l")
      case True
      then have "i = l" using il by simp
      then show ?thesis
        using gt True "1.prems" ir bs by (auto simp: less_imp_le)
    next
      case False
      have n1: "\<not> nth_js (map Num xs) ((l + r) div 2) < Num v"
        using gt ai by (simp add: i_def)
      have n2: "Num v < nth_js (map Num xs) ((l + r) div 2)"
        using gt ai by (simp add: i_def)
      from "1.hyps"(2) [OF n1 n2 _ "1.prems"(1)] False above "1.prems" i0 ir
      have ih: "l \<le> binarySearch_loop (map Num xs) (Num v) l (i - 1) \<and>
         binarySearch_loop (map Num xs) (Num v) l (i - 1) \<le> i - 1 + 1 \<and>
         (\<forall>j. j < nat (binarySearch_loop (map Num xs) (Num v) l (i - 1)) \<longrightarrow> xs ! j < v) \<and>
         (nat (binarySearch_loop (map Num xs) (Num v) l (i - 1)) < length xs \<longrightarrow>
            v \<le> xs ! nat (binarySearch_loop (map Num xs) (Num v) l (i - 1)))"
        by (simp add: i_def)
      have "binarySearch_loop (map Num xs) (Num v) l r =
            binarySearch_loop (map Num xs) (Num v) l (i - 1)"
        using bs gt False by simp
      then show ?thesis using ih ir by simp
    qed
  next
    case eq
    have r: "binarySearch_loop (map Num xs) (Num v) l r = i"
      using bs eq by simp
    have "\<forall>j. j < nat i \<longrightarrow> xs ! j < v"
      using mono [of _ "nat i"] ni eq by auto
    then show ?thesis using r il ir eq by simp
  qed
qed

lemma binarySearch_correct:
  assumes "xs \<noteq> []" and "sorted_wrt (<) xs"
  shows "0 \<le> binarySearch (map Num xs) (Num v) \<and>
         binarySearch (map Num xs) (Num v) \<le> int (length xs) \<and>
         (\<forall>j. j < nat (binarySearch (map Num xs) (Num v)) \<longrightarrow> xs ! j < v) \<and>
         (nat (binarySearch (map Num xs) (Num v)) < length xs \<longrightarrow>
            v \<le> xs ! nat (binarySearch (map Num xs) (Num v)))"
proof -
  have a: "0 \<le> int (length xs) - 1" using assms(1) by (cases xs) auto
  have b: "\<forall>j. nat (int (length xs) - 1) < j \<and> j < length xs \<longrightarrow> v < xs ! j"
    by auto
  have c: "\<forall>j. j < nat 0 \<longrightarrow> xs ! j < v" by simp
  from binarySearch_loop_correct [OF assms(2) _ a _ c b] show ?thesis
    by (simp add: binarySearch_def)
qed

text \<open>
  C9, as the source has it. \<^verbatim>\<open>binarySearch\<close> is a total function (its loop terminates on
  every input). On the empty array it returns \<open>-1\<close>, as its two sibling searches do by an
  explicit test, and not the length 0.
\<close>

theorem binarySearch_empty_counterexample:
  "sorted_wrt (<) ([] :: rat list) \<and>
   binarySearch (map Num []) (Num 0) = - 1 \<and>
   binarySearch (map Num []) (Num 0) \<noteq> int (length ([] :: rat list))"
  by (simp add: binarySearch_def binarySearch_loop.simps nth_js_def)

text \<open>
  C9, amended. For every non-empty strictly increasing array \<open>xs\<close> of numbers and every number
  \<open>v\<close>, \<^verbatim>\<open>binarySearch\<close> returns an index \<open>k\<close> between 0 and the length such that every
  element before \<open>k\<close> is below \<open>v\<close> and, when \<open>k\<close> is inside the array, the element at \<open>k\<close> is
  at least \<open>v\<close>: the least index whose element is at least \<open>v\<close>, or the length when there is
  none.
\<close>

theorem binarySearch_insertion_position:
  assumes "xs \<noteq> []" and "sorted_wrt (<) xs"
  shows "0 \<le> binarySearch (map Num xs) (Num v) \<and>
         binarySearch (map Num xs) (Num v) \<le> int (length xs) \<and>
         (\<forall>j. j < nat (binarySearch (map Num xs) (Num v)) \<longrightarrow> xs ! j < v) \<and>
         (nat (binarySearch (map Num xs) (Num v)) < length xs \<longrightarrow>
            v \<le> xs ! nat (binarySearch (map Num xs) (Num v)))"
  using assms by (rule binarySearch_correct)

theorem binarySearch_insertion_position_witness:
  "[0, 10, 20 :: rat] \<noteq> [] \<and> sorted_wrt (<) [0, 10, 20 :: rat] \<and>
   0 \<le> binarySearch (map Num [0, 10, 20]) (Num 11) \<and>
   binarySearch (map Num [0, 10, 20]) (Num 11) \<le> 3"
proof -
  have a: "[0, 10, 20 :: rat] \<noteq> []" by simp
  have b: "sorted_wrt (<) [0, 10, 20 :: rat]" by simp
  from binarySearch_insertion_position [OF a b, of 11] a b show ?thesis by simp
qed

section \<open>Track ranges\<close>

lemma binarySearch_loop_bounds:
  "l \<le> r \<Longrightarrow> l \<le> binarySearch_loop a x l r \<and> binarySearch_loop a x l r \<le> r + 1"
proof (induction a x l r rule: binarySearch_loop.induct)
  case (1 a x l r)
  define i where "i = (l + r) div 2"
  have il: "l \<le> i" and ir: "i \<le> r" using "1.prems" by (auto simp: i_def)
  note bs = binarySearch_loop.simps [of a x l r, folded i_def]
  show ?case
  proof (cases "nth_js a i < x")
    case True
    show ?thesis
    proof (cases "i + 1 > r")
      case t: True
      then show ?thesis using bs True il ir by simp
    next
      case False
      then have "i + 1 \<le> binarySearch_loop a x (i + 1) r \<and> binarySearch_loop a x (i + 1) r \<le> r + 1"
        using "1.IH"(1) True by (simp add: i_def)
      then show ?thesis using bs True False il by simp
    qed
  next
    case nlt: False
    show ?thesis
    proof (cases "x < nth_js a i")
      case True
      show ?thesis
      proof (cases "i - 1 < l")
        case t: True
        then show ?thesis using bs True nlt il ir by simp
      next
        case False
        then have "l \<le> binarySearch_loop a x l (i - 1) \<and> binarySearch_loop a x l (i - 1) \<le> i - 1 + 1"
          using "1.IH"(2) True nlt by (simp add: i_def)
        then show ?thesis using bs True nlt False ir by simp
      qed
    next
      case False
      then show ?thesis using bs nlt il ir by simp
    qed
  qed
qed

lemma binarySearch_bounds:
  "a \<noteq> [] \<Longrightarrow> 0 \<le> binarySearch a x \<and> binarySearch a x \<le> int (length a)"
  using binarySearch_loop_bounds [of 0 "int (length a) - 1" a x]
  by (cases a) (auto simp: binarySearch_def)

lemma getEndTrack_loop_bounds:
  "e0 \<le> getEndTrack_loop offs p e0 \<and> getEndTrack_loop offs p e0 \<le> max e0 (int (length offs))"
proof (induction offs p e0 rule: getEndTrack_loop.induct)
  case (1 offs p e)
  show ?case
    using "1.IH" getEndTrack_loop.simps [of offs p e] by auto
qed

lemma getEndTrack_loop_spec:
  assumes "0 \<le> e0"
  shows "(\<forall>j. e0 \<le> j \<and> j < getEndTrack_loop (map Num xs) (Num p) e0 \<longrightarrow> xs ! nat j < p) \<and>
         (getEndTrack_loop (map Num xs) (Num p) e0 < int (length xs) \<longrightarrow>
            p \<le> xs ! nat (getEndTrack_loop (map Num xs) (Num p) e0))"
  using assms
proof (induction "map Num xs" "Num p" e0 rule: getEndTrack_loop.induct)
  case (1 e)
  note s = getEndTrack_loop.simps [of "map Num xs" "Num p" e]
  show ?case
  proof (cases "e < int (length xs) \<and> xs ! nat e < p")
    case True
    then have c: "e < int (length (map Num xs)) \<and> nth_js (map Num xs) e < Num p"
      using "1.prems" nth_js_map_Num [of e xs] by simp
    have ih: "(\<forall>j. e + 1 \<le> j \<and> j < getEndTrack_loop (map Num xs) (Num p) (e + 1) \<longrightarrow> xs ! nat j < p) \<and>
         (getEndTrack_loop (map Num xs) (Num p) (e + 1) < int (length xs) \<longrightarrow>
            p \<le> xs ! nat (getEndTrack_loop (map Num xs) (Num p) (e + 1)))"
      using "1.hyps" [OF c] "1.prems" by simp
    have eq: "getEndTrack_loop (map Num xs) (Num p) e = getEndTrack_loop (map Num xs) (Num p) (e + 1)"
      using s c by simp
    have "\<forall>j. e \<le> j \<and> j < getEndTrack_loop (map Num xs) (Num p) (e + 1) \<longrightarrow> xs ! nat j < p"
    proof (intro allI impI)
      fix j assume a: "e \<le> j \<and> j < getEndTrack_loop (map Num xs) (Num p) (e + 1)"
      then have "j = e \<or> e + 1 \<le> j" by auto
      then show "xs ! nat j < p" using True ih a by auto
    qed
    then show ?thesis using eq ih by simp
  next
    case False
    then have c: "\<not> (e < int (length (map Num xs)) \<and> nth_js (map Num xs) e < Num p)"
      using "1.prems" nth_js_map_Num [of e xs] by auto
    have eq: "getEndTrack_loop (map Num xs) (Num p) e = e"
      using s c by auto
    show ?thesis using eq False by auto
  qed
qed

lemma getTrackRange_start:
  fixes x :: rat and d :: number
  assumes ne: "xs \<noteq> []" and so: "sorted_wrt (<) xs" and bo: "blockOffsets this = map Num xs"
  defines "k \<equiv> binarySearch (map Num xs) (Num x)"
  defines "start \<equiv> fst (FloatSide_getTrackRange this (Num x) d)"
  shows "start = (if k < int (length xs) \<and> xs ! nat k = x then k else k - 1)"
    and "- 1 \<le> start" and "start < int (length xs)"
    and "0 \<le> start \<longrightarrow> xs ! nat start \<le> x"
    and "start + 1 < int (length xs) \<longrightarrow> x < xs ! nat (start + 1)"
proof -
  from binarySearch_correct [OF ne so, of x]
  have k0: "0 \<le> k" and kl: "k \<le> int (length xs)"
    and below: "\<forall>j. j < nat k \<longrightarrow> xs ! j < x"
    and at: "nat k < length xs \<longrightarrow> x \<le> xs ! nat k"
    by (simp_all add: k_def)
  have mono: "\<And>j k. j < k \<Longrightarrow> k < length xs \<Longrightarrow> xs ! j < xs ! k"
    using so by (simp add: sorted_wrt_nth_less)
  have sne: "strict_ne (nth_js (map Num xs) k) (Num x) = (\<not> (k < int (length xs) \<and> xs ! nat k = x))"
    using k0 by (auto simp: strict_ne_def nth_js_def)
  show st: "start = (if k < int (length xs) \<and> xs ! nat k = x then k else k - 1)"
    unfolding start_def FloatSide_getTrackRange_def Let_def bo k_def [symmetric] sne
    by simp
  show "- 1 \<le> start" using st k0 by auto
  show "start < int (length xs)" using st kl by auto
  show "0 \<le> start \<longrightarrow> xs ! nat start \<le> x"
  proof (cases "k < int (length xs) \<and> xs ! nat k = x")
    case True
    then show ?thesis using st by simp
  next
    case False
    then have s: "start = k - 1" using st by simp
    show ?thesis
    proof
      assume "0 \<le> start"
      then have "nat start < nat k" using s by auto
      then show "xs ! nat start \<le> x" using below by (simp add: less_imp_le)
    qed
  qed
  show "start + 1 < int (length xs) \<longrightarrow> x < xs ! nat (start + 1)"
  proof (cases "k < int (length xs) \<and> xs ! nat k = x")
    case True
    then have s: "start = k" using st by simp
    show ?thesis
    proof
      assume a: "start + 1 < int (length xs)"
      have "xs ! nat k < xs ! nat (k + 1)"
        using mono [of "nat k" "nat (k + 1)"] a s k0 by auto
      then show "x < xs ! nat (start + 1)" using True s by simp
    qed
  next
    case False
    then have s: "start = k - 1" using st by simp
    show ?thesis
    proof
      assume a: "start + 1 < int (length xs)"
      then have "nat k < length xs" using s k0 by auto
      then have "x \<le> xs ! nat k" using at by simp
      moreover have "xs ! nat k \<noteq> x" using False a s by auto
      ultimately show "x < xs ! nat (start + 1)" using s by simp
    qed
  qed
qed





section \<open>The invariant of a FloatSide\<close>

lemma length_splice_insert [simp]: "length (splice_insert a i v) = Suc (length a)"
  by (simp add: splice_insert_def Let_def)

lemma splice_insert_map: "splice_insert (map f xs) i (f v) = map f (splice_insert xs i v)"
  by (simp add: splice_insert_def Let_def take_map drop_map)

lemma splice_insert_in_range:
  "0 \<le> i \<Longrightarrow> i \<le> int (length a) \<Longrightarrow> splice_insert a i v = take (nat i) a @ v # drop (nat i) a"
  by (simp add: splice_insert_def Let_def min_def)

lemma sorted_wrt_insert_at:
  fixes v :: "'a::linorder"
  assumes so: "sorted_wrt (<) xs" and k: "k \<le> length xs"
    and lo: "0 < k \<longrightarrow> xs ! (k - 1) < v" and hi: "k < length xs \<longrightarrow> v < xs ! k"
  shows "sorted_wrt (<) (take k xs @ v # drop k xs)"
proof -
  have mono: "\<And>i j. i < j \<Longrightarrow> j < length xs \<Longrightarrow> xs ! i < xs ! j"
    using so by (simp add: sorted_wrt_nth_less)
  have a: "\<forall>x \<in> set (take k xs). x < v"
  proof
    fix x assume "x \<in> set (take k xs)"
    then obtain j where j: "j < k" "j < length xs" "x = xs ! j"
      by (auto simp: in_set_conv_nth)
    have "xs ! j \<le> xs ! (k - 1)"
    proof (cases "j = k - 1")
      case True then show ?thesis by simp
    next
      case False
      then have "j < k - 1" using j by simp
      moreover have "k - 1 < length xs" using k j by simp
      ultimately have "xs ! j < xs ! (k - 1)" by (rule mono)
      then show ?thesis by simp
    qed
    then show "x < v" using lo j by auto
  qed
  have b: "\<forall>y \<in> set (drop k xs). v < y"
  proof
    fix y assume "y \<in> set (drop k xs)"
    then obtain j where "j < length (drop k xs)" "y = drop k xs ! j"
      by (auto simp: in_set_conv_nth)
    then have j: "k + j < length xs" "y = xs ! (k + j)"
      using k by auto
    have "xs ! k \<le> xs ! (k + j)"
    proof (cases "j = 0")
      case True then show ?thesis by simp
    next
      case False
      then show ?thesis using mono [of k "k + j"] j by simp
    qed
    then show "v < y" using hi j by auto
  qed
  have c: "sorted_wrt (<) (take k xs)" "sorted_wrt (<) (drop k xs)"
    using so by simp_all
  show ?thesis
    using a b c by (fastforce simp: sorted_wrt_append)
qed

lemma nth_insert_at:
  "k \<le> length xs \<Longrightarrow> j \<le> length xs \<Longrightarrow>
   (take k xs @ v # drop k xs) ! j = (if j < k then xs ! j else if j = k then v else xs ! (j - 1))"
proof -
  assume k: "k \<le> length xs" and j: "j \<le> length xs"
  have l: "length (take k xs) = k" using k by simp
  show ?thesis
  proof (cases "j < k")
    case True
    then show ?thesis using l by (simp add: nth_append)
  next
    case False
    then obtain m where m: "j = k + m" by (metis le_add_diff_inverse not_less)
    show ?thesis
    proof (cases m)
      case 0
      then show ?thesis using m l by (simp add: nth_append)
    next
      case (Suc n)
      then have "(take k xs @ v # drop k xs) ! j = drop k xs ! n"
        using m l by (simp add: nth_append)
      also have "\<dots> = xs ! (k + n)" using k j m Suc by simp
      finally show ?thesis using m Suc by simp
    qed
  qed
qed

lemma lengths_equal_splitTrack:
  "lengths_equal s \<Longrightarrow> lengths_equal (FloatSide_splitTrack i off s)"
  by (simp add: lengths_equal_def FloatSide_splitTrack_def Let_def)

lemma FloatSide_inv_new: "FloatSide_inv (FloatSide_new (Num b))"
  unfolding FloatSide_inv_def lengths_equal_def FloatSide_new_def
  by (auto intro!: exI [of _ "[b]"])

lemma FloatSide_inv_shelf:
  assumes "FloatSide_inv s"
  shows "FloatSide_inv
    (s\<lparr>shelfBlockOffset := Num b,
       shelfTrackIndex := fst (FloatSide_getTrackRange (s\<lparr>shelfBlockOffset := Num b\<rparr>) (Num b) 0)\<rparr>)"
proof -
  from assms obtain xs where xs: "blockOffsets s = map Num xs" "xs \<noteq> []" "sorted_wrt (<) xs"
    and le: "lengths_equal s"
    by (auto simp: FloatSide_inv_def)
  have bo: "blockOffsets (s\<lparr>shelfBlockOffset := Num b\<rparr>) = map Num xs" using xs by simp
  note st = getTrackRange_start [OF xs(2) xs(3) bo, of b 0]
  show ?thesis
    unfolding FloatSide_inv_def
    using le xs st(2-5) by (auto simp: lengths_equal_def)
qed

lemma FloatSide_inv_boxStart: "FloatSide_inv s \<Longrightarrow> FloatSide_inv (FloatSide_boxStart (Num b) s)"
  using FloatSide_inv_shelf [of s b] by (simp add: FloatSide_boxStart_def Let_def)

lemma FloatSide_inv_dropShelf: "FloatSide_inv s \<Longrightarrow> FloatSide_inv (FloatSide_dropShelf (Num b) s)"
  using FloatSide_inv_shelf [of s b] by (simp add: FloatSide_dropShelf_def Let_def)

lemma strict_ne_Num_nth:
  "blockOffsets s = map Num xs \<Longrightarrow>
   strict_ne (nth_js (blockOffsets s) i) (Num b) = (\<not> (0 \<le> i \<and> i < int (length xs) \<and> xs ! nat i = b))"
  by (auto simp: strict_ne_def nth_js_def)

text \<open>After the first split of a placement the shelf sits on the top of its track.\<close>

lemma FloatSide_inv_splitIfShelfDropped:
  assumes "FloatSide_inv s"
  defines "s' \<equiv> FloatSide_splitIfShelfDropped s"
  shows "FloatSide_inv s'" and "shelfBlockOffset s' = shelfBlockOffset s"
    and "0 \<le> shelfTrackIndex s'"
    and "nth_js (blockOffsets s') (shelfTrackIndex s') = shelfBlockOffset s'"
proof -
  from assms(1) obtain xs b where xs: "blockOffsets s = map Num xs" "xs \<noteq> []" "sorted_wrt (<) xs"
    and b: "shelfBlockOffset s = Num b"
    and i1: "- 1 \<le> shelfTrackIndex s" and i2: "shelfTrackIndex s < int (length xs)"
    and lo: "0 \<le> shelfTrackIndex s \<longrightarrow> xs ! nat (shelfTrackIndex s) \<le> b"
    and hi: "shelfTrackIndex s + 1 < int (length xs) \<longrightarrow> b < xs ! nat (shelfTrackIndex s + 1)"
    and le: "lengths_equal s"
    by (auto simp: FloatSide_inv_def)
  define i where "i = shelfTrackIndex s"
  note sne = strict_ne_Num_nth [OF xs(1), of i b]
  show "FloatSide_inv s'" "shelfBlockOffset s' = shelfBlockOffset s" "0 \<le> shelfTrackIndex s'"
    "nth_js (blockOffsets s') (shelfTrackIndex s') = shelfBlockOffset s'"
  proof -
    consider (same) "0 \<le> i \<and> xs ! nat i = b" | (split) "\<not> (0 \<le> i \<and> xs ! nat i = b)"
      by blast
    then have "FloatSide_inv s' \<and> shelfBlockOffset s' = shelfBlockOffset s \<and> 0 \<le> shelfTrackIndex s' \<and>
      nth_js (blockOffsets s') (shelfTrackIndex s') = shelfBlockOffset s'"
    proof cases
      case same
      then have "s' = s"
        using sne i2 by (simp add: s'_def FloatSide_splitIfShelfDropped_def i_def b)
      then show ?thesis
        using assms(1) same i2 xs(1) b nth_js_map_Num [of i xs] by (simp add: i_def)
    next
      case split
      define k where "k = nat (i + 1)"
      define ys where "ys = take k xs @ b # drop k xs"
      have k: "k \<le> length xs" "int k = i + 1" using i1 i2 by (auto simp: k_def i_def)
      have s': "s' = (FloatSide_splitTrack i (Num b) s)\<lparr>shelfTrackIndex := i + 1\<rparr>"
        using sne i2 split
        by (simp add: s'_def FloatSide_splitIfShelfDropped_def i_def b Let_def FloatSide_splitTrack_def)
      have "splice_insert xs (i + 1) b = ys"
        using i1 i2 by (simp add: splice_insert_in_range ys_def k_def i_def)
      then have bo': "blockOffsets s' = map Num ys"
        using xs(1) by (simp add: s' FloatSide_splitTrack_def Let_def splice_insert_map)
      have below: "0 < k \<longrightarrow> xs ! (k - 1) < b"
      proof
        assume "0 < k"
        then have "0 \<le> i" "k - 1 = nat i" using k by auto
        then show "xs ! (k - 1) < b" using lo split by (auto simp: i_def)
      qed
      have above: "k < length xs \<longrightarrow> b < xs ! k"
        using hi k by (auto simp: i_def k_def)
      have so: "sorted_wrt (<) ys"
        unfolding ys_def using xs(3) k(1) below above by (rule sorted_wrt_insert_at)
      have len: "length ys = Suc (length xs)" using k by (simp add: ys_def)
      have at: "ys ! k = b" using k by (simp add: ys_def nth_insert_at)
      have next_: "Suc k < length ys \<longrightarrow> b < ys ! Suc k"
      proof
        assume "Suc k < length ys"
        then have "k < length xs" using len by simp
        then show "b < ys ! Suc k" using above k by (simp add: ys_def nth_insert_at)
      qed
      have idx: "shelfTrackIndex s' = int k" "shelfBlockOffset s' = Num b"
        using k b by (simp_all add: s' FloatSide_splitTrack_def Let_def)
      have le': "lengths_equal s'"
        using lengths_equal_splitTrack [OF le, of i "Num b"] by (simp add: s' lengths_equal_def)
      have a1: "0 \<le> shelfTrackIndex s' \<longrightarrow> ys ! nat (shelfTrackIndex s') \<le> b"
        using idx at by simp
      have "nat (int k + 1) = Suc k" by simp
      then have a2: "shelfTrackIndex s' + 1 < int (length ys) \<longrightarrow> b < ys ! nat (shelfTrackIndex s' + 1)"
        using idx next_ by auto
      have a3: "- 1 \<le> shelfTrackIndex s'" "shelfTrackIndex s' < int (length ys)" "ys \<noteq> []"
        using idx len k by (auto simp: ys_def)
      have "FloatSide_inv s'"
        unfolding FloatSide_inv_def
        using le' bo' so idx(2) a1 a2 a3 by blast
      moreover have "nth_js (blockOffsets s') (shelfTrackIndex s') = shelfBlockOffset s'"
      proof -
        have "nth_js (map Num ys) (int k) = Num (ys ! nat (int k))"
          using len k(1) by (intro nth_js_map_Num) auto
        then show ?thesis using bo' idx(1,2) at by simp
      qed
      ultimately show ?thesis using idx b by simp
    qed
    then show "FloatSide_inv s'" "shelfBlockOffset s' = shelfBlockOffset s" "0 \<le> shelfTrackIndex s'"
      "nth_js (blockOffsets s') (shelfTrackIndex s') = shelfBlockOffset s'"
      by simp_all
  qed
qed

lemma FloatSide_inv_placeFloat_split:
  assumes "FloatSide_inv s" and "placeFloat_split bSize s = (s', st, en)"
  shows "FloatSide_inv s'" and "0 \<le> st" and "en \<le> int (length (blockOffsets s'))"
    and "shelfBlockOffset s' = shelfBlockOffset s"
proof -
  define s1 where "s1 = FloatSide_splitIfShelfDropped s"
  note i1 = FloatSide_inv_splitIfShelfDropped [OF assms(1), folded s1_def]
  from i1(1) obtain xs b where xs: "blockOffsets s1 = map Num xs" "xs \<noteq> []" "sorted_wrt (<) xs"
    and b: "shelfBlockOffset s1 = Num b"
    and i2: "shelfTrackIndex s1 < int (length xs)"
    and hi: "shelfTrackIndex s1 + 1 < int (length xs) \<longrightarrow> b < xs ! nat (shelfTrackIndex s1 + 1)"
    and le: "lengths_equal s1"
    by (auto simp: FloatSide_inv_def)
  define i where "i = shelfTrackIndex s1"
  have i0: "0 \<le> i" using i1(3) by (simp add: i_def)
  have at: "xs ! nat i = b"
    using i1(4) xs(1) b i0 i2 nth_js_map_Num [of i xs] by (simp add: i_def)
  have st: "st = i"
    using assms(2) by (auto simp: placeFloat_split_def Let_def s1_def i_def)
  have "FloatSide_inv s' \<and> en \<le> int (length (blockOffsets s')) \<and> shelfBlockOffset s' = shelfBlockOffset s"
  proof (cases "bSize > 0")
    case False
    then have "s' = s1" "en = i"
      using assms(2) by (auto simp: placeFloat_split_def Let_def s1_def i_def)
    then show ?thesis using i1 i2 xs(1) by (simp add: i_def)
  next
    case True
    then obtain d where d: "bSize = Num d" "0 < d"
      by (cases bSize) (auto simp: zero_number_def)
    define e where "e = getEndTrack_loop (map Num xs) (Num (b + d)) (i + 1)"
    have e1: "i + 1 \<le> e" and e2: "e \<le> int (length xs)"
      using getEndTrack_loop_bounds [of "i + 1" "map Num xs" "Num (b + d)"] i2
      by (auto simp: e_def i_def)
    have "0 \<le> i + 1" using i0 by simp
    from getEndTrack_loop_spec [OF this, of xs "b + d", folded e_def]
    have e3: "\<forall>j. i + 1 \<le> j \<and> j < e \<longrightarrow> xs ! nat j < b + d"
      and e4: "e < int (length xs) \<longrightarrow> b + d \<le> xs ! nat e"
      by simp_all
    have en: "en = e"
      using assms(2) True
      by (auto simp: placeFloat_split_def Let_def s1_def [symmetric] i_def [symmetric]
          FloatSide_getEndTrack_def xs(1) b d e_def)
    note sne = strict_ne_Num_nth [OF xs(1), of e "b + d"]
    show ?thesis
    proof (cases "0 \<le> e \<and> e < int (length xs) \<and> xs ! nat e = b + d")
      case same: True
      then have "s' = s1"
        using assms(2) True sne
        by (auto simp: placeFloat_split_def Let_def s1_def [symmetric] i_def [symmetric]
            FloatSide_getEndTrack_def xs(1) b d e_def)
      then show ?thesis using i1 en same xs(1) by simp
    next
      case split: False
      define k where "k = nat e"
      define ys where "ys = take k xs @ (b + d) # drop k xs"
      have k: "k \<le> length xs" "int k = e" "0 < k" using e1 e2 i0 by (auto simp: k_def)
      have s': "s' = FloatSide_splitTrack (e - 1) (Num (b + d)) s1"
        using assms(2) True sne split
        by (auto simp: placeFloat_split_def Let_def s1_def [symmetric] i_def [symmetric]
            FloatSide_getEndTrack_def xs(1) b d e_def)
      have "splice_insert xs (e - 1 + 1) (b + d) = ys"
        using e1 e2 i0 by (simp add: splice_insert_in_range ys_def k_def)
      then have bo': "blockOffsets s' = map Num ys"
        using xs(1) by (simp add: s' FloatSide_splitTrack_def Let_def splice_insert_map)
      have below: "0 < k \<longrightarrow> xs ! (k - 1) < b + d"
      proof
        assume "0 < k"
        show "xs ! (k - 1) < b + d"
        proof (cases "e - 1 = i")
          case True
          then have "k - 1 = nat i" using k by auto
          then show ?thesis using at d by simp
        next
          case False
          then have "i + 1 \<le> e - 1 \<and> e - 1 < e" using e1 by auto
          then have "xs ! nat (e - 1) < b + d" using e3 by blast
          moreover have "nat (e - 1) = k - 1" using k by auto
          ultimately show ?thesis by simp
        qed
      qed
      have above: "k < length xs \<longrightarrow> b + d < xs ! k"
      proof
        assume a: "k < length xs"
        then have "e < int (length xs)" using k by auto
        then have "b + d \<le> xs ! nat e" "xs ! nat e \<noteq> b + d" using e4 split e1 i0 by auto
        then show "b + d < xs ! k" by (simp add: k_def)
      qed
      have so: "sorted_wrt (<) ys"
        unfolding ys_def using xs(3) k(1) below above by (rule sorted_wrt_insert_at)
      have len: "length ys = Suc (length xs)" using k by (simp add: ys_def)
      have ik: "nat i < k" using e1 i0 k by auto
      have a1: "ys ! nat i \<le> b"
        using ik k at by (simp add: ys_def nth_insert_at)
      have a2: "b < ys ! nat (i + 1)"
      proof (cases "nat (i + 1) < k")
        case True
        then have "i + 1 < int (length xs)" using k i0 by auto
        then have "b < xs ! nat (i + 1)" using hi by (simp add: i_def)
        then show ?thesis using True k by (simp add: ys_def nth_insert_at)
      next
        case False
        then have "nat (i + 1) = k" using ik i0 by auto
        then show ?thesis using k d by (simp add: ys_def nth_insert_at)
      qed
      have idx: "shelfTrackIndex s' = i" "shelfBlockOffset s' = Num b"
        using b by (simp_all add: s' FloatSide_splitTrack_def Let_def i_def)
      have le': "lengths_equal s'"
        using lengths_equal_splitTrack [OF le] by (simp add: s')
      have a3: "- 1 \<le> shelfTrackIndex s'" "shelfTrackIndex s' < int (length ys)" "ys \<noteq> []"
        using idx len i0 i2 by (auto simp: ys_def i_def)
      have "FloatSide_inv s'"
        unfolding FloatSide_inv_def
        using le' bo' so idx a1 a2 a3 by auto
      then show ?thesis using bo' len en e2 idx b i1(2) by simp
    qed
  qed
  then show "FloatSide_inv s'" "0 \<le> st" "en \<le> int (length (blockOffsets s'))"
    "shelfBlockOffset s' = shelfBlockOffset s"
    using st i0 by simp_all
qed

lemma set_js_in_range:
  "0 \<le> i \<Longrightarrow> i < int (length a) \<Longrightarrow> set_js a i v = a[nat i := v]"
  by (simp add: set_js_def)

lemma placeFloat_track_frame:
  assumes "lengths_equal s" and "0 \<le> t" and "t < int (length (blockOffsets s))"
  shows "blockOffsets (placeFloat_track c mo w me t s) = blockOffsets s"
    and "shelfBlockOffset (placeFloat_track c mo w me t s) = shelfBlockOffset s"
    and "shelfTrackIndex (placeFloat_track c mo w me t s) = shelfTrackIndex s"
    and "items (placeFloat_track c mo w me t s) = items s"
    and "lengths_equal (placeFloat_track c mo w me t s)"
  using assms by (simp_all add: placeFloat_track_def Let_def lengths_equal_def set_js_in_range)

lemma placeFloat_loop_frame:
  assumes "lengths_equal s" and "0 \<le> t" and "en \<le> int (length (blockOffsets s))"
  shows "blockOffsets (placeFloat_loop c mo w me en t s) = blockOffsets s \<and>
         shelfBlockOffset (placeFloat_loop c mo w me en t s) = shelfBlockOffset s \<and>
         shelfTrackIndex (placeFloat_loop c mo w me en t s) = shelfTrackIndex s \<and>
         items (placeFloat_loop c mo w me en t s) = items s \<and>
         lengths_equal (placeFloat_loop c mo w me en t s)"
  using assms
proof (induction c mo w me en t s rule: placeFloat_loop.induct)
  case (1 c mo w me en t s)
  note sm = placeFloat_loop.simps [of c mo w me en t s]
  show ?case
  proof (cases "t < en")
    case False
    then show ?thesis using sm "1.prems" by simp
  next
    case True
    then have r: "t < int (length (blockOffsets s))" using "1.prems" by simp
    note f = placeFloat_track_frame [OF "1.prems"(1,2) r, of c mo w me]
    have "0 \<le> t + 1" using "1.prems" by simp
    moreover have "en \<le> int (length (blockOffsets (placeFloat_track c mo w me t s)))"
      using f(1) "1.prems" by simp
    ultimately show ?thesis
      using "1.IH" [OF True f(5)] f sm True by simp
  qed
qed

lemma FloatSide_inv_frame:
  "FloatSide_inv s \<Longrightarrow> blockOffsets s' = blockOffsets s \<Longrightarrow> shelfBlockOffset s' = shelfBlockOffset s \<Longrightarrow>
   shelfTrackIndex s' = shelfTrackIndex s \<Longrightarrow> lengths_equal s' \<Longrightarrow> FloatSide_inv s'"
  by (simp add: FloatSide_inv_def)

lemma FloatSide_inv_placeFloat:
  assumes "FloatSide_inv s"
  shows "FloatSide_inv (fst (state_of (FloatSide_placeFloat box vacancy l r (s, h))))"
proof -
  define bSize where "bSize = area_height (areas h (borderArea h (box_id box)))
      + m_blockStart (getMarginsAutoIsZero box) + m_blockEnd (getMarginsAutoIsZero box)"
  obtain s1 st en where sp: "placeFloat_split bSize s = (s1, st, en)"
    by (cases "placeFloat_split bSize s") auto
  note i1 = FloatSide_inv_placeFloat_split [OF assms sp]
  have le: "lengths_equal s1" using i1(1) by (simp add: FloatSide_inv_def)
  have loop: "\<And>c mo w me. FloatSide_inv ((placeFloat_loop c mo w me en st s1)\<lparr>items := items (placeFloat_loop c mo w me en st s1) @ [box]\<rparr>)"
  proof -
    fix c mo w me
    note f = placeFloat_loop_frame [OF le i1(2) i1(3), of c mo w me]
    show "FloatSide_inv ((placeFloat_loop c mo w me en st s1)\<lparr>items := items (placeFloat_loop c mo w me en st s1) @ [box]\<rparr>)"
      using f by (intro FloatSide_inv_frame [OF i1(1)]) (auto simp: lengths_equal_def)
  qed
  show ?thesis
    using assms i1(1) loop sp
    by (simp add: FloatSide_placeFloat_def Let_def bSize_def [symmetric] split: outcome.splits)
qed

lemma FloatSide_reachable_inv: "FloatSide_reachable s \<Longrightarrow> FloatSide_inv s"
proof (induction rule: FloatSide_reachable.induct)
  case reach_new
  show ?case by (rule FloatSide_inv_new)
next
  case (reach_boxStart s b)
  then show ?case by (simp add: FloatSide_inv_boxStart)
next
  case (reach_dropShelf s b)
  then show ?case by (simp add: FloatSide_inv_dropShelf)
next
  case (reach_placeFloat s box vacancy l r h)
  then show ?case by (simp add: FloatSide_inv_placeFloat)
qed

section \<open>The invariant of a FloatSide under rounded sums\<close>

lemma binarySearch_loop_weak:
  assumes "sorted_wrt (\<le>) xs"
    and "0 \<le> l" and "l \<le> r" and "r < int (length xs)"
    and "\<forall>j. j < nat l \<longrightarrow> xs ! j < v"
    and "\<forall>j. nat r < j \<and> j < length xs \<longrightarrow> v < xs ! j"
  shows "l \<le> binarySearch_loop (map Num xs) (Num v) l r \<and>
         binarySearch_loop (map Num xs) (Num v) l r \<le> r + 1 \<and>
         (\<forall>j. j < nat (binarySearch_loop (map Num xs) (Num v) l r) \<longrightarrow> xs ! j \<le> v) \<and>
         (nat (binarySearch_loop (map Num xs) (Num v) l r) < length xs \<longrightarrow>
            v \<le> xs ! nat (binarySearch_loop (map Num xs) (Num v) l r))"
  using assms
proof (induction "map Num xs" "Num v" l r rule: binarySearch_loop.induct)
  case (1 l r)
  define i where "i = (l + r) div 2"
  have il: "l \<le> i" and ir: "i \<le> r" using "1.prems"(2,3) by (auto simp: i_def)
  have i0: "0 \<le> i" and ilen: "i < int (length xs)" using il ir "1.prems" by auto
  have ni: "nat i < length xs" using i0 ilen by linarith
  have ai: "nth_js (map Num xs) i = Num (xs ! nat i)"
    using i0 ilen by (rule nth_js_map_Num)
  have mono: "\<And>j k. j \<le> k \<Longrightarrow> k < length xs \<Longrightarrow> xs ! j \<le> xs ! k"
    using "1.prems"(1) by (simp add: sorted_iff_nth_mono)
  note bs = binarySearch_loop.simps [of "map Num xs" "Num v" l r, folded i_def, unfolded ai]
  consider (lt) "xs ! nat i < v" | (gt) "v < xs ! nat i" | (eq) "xs ! nat i = v"
    by fastforce
  then show ?case
  proof cases
    case lt
    have below: "\<forall>j. j < nat (i + 1) \<longrightarrow> xs ! j < v"
    proof (intro allI impI)
      fix j assume "j < nat (i + 1)"
      then have "j \<le> nat i" using i0 by auto
      then have "xs ! j \<le> xs ! nat i" using ni by (rule mono)
      then show "xs ! j < v" using lt by simp
    qed
    show ?thesis
    proof (cases "i + 1 > r")
      case True
      then have ie: "i = r" using ir by simp
      have res: "binarySearch_loop (map Num xs) (Num v) l r = i + 1"
        using bs lt True by simp
      have "nat (i + 1) < length xs \<longrightarrow> v \<le> xs ! nat (i + 1)"
        using "1.prems"(6) ie i0 by (auto simp: less_imp_le)
      moreover have "\<forall>j. j < nat (i + 1) \<longrightarrow> xs ! j \<le> v"
        using below by (auto simp: less_imp_le)
      ultimately show ?thesis using res il ie by simp
    next
      case False
      have "nth_js (map Num xs) ((l + r) div 2) < Num v"
        using lt ai by (simp add: i_def)
      from "1.hyps"(1) [OF this _ "1.prems"(1)] False below "1.prems" i0 il
      have ih: "i + 1 \<le> binarySearch_loop (map Num xs) (Num v) (i + 1) r \<and>
         binarySearch_loop (map Num xs) (Num v) (i + 1) r \<le> r + 1 \<and>
         (\<forall>j. j < nat (binarySearch_loop (map Num xs) (Num v) (i + 1) r) \<longrightarrow> xs ! j \<le> v) \<and>
         (nat (binarySearch_loop (map Num xs) (Num v) (i + 1) r) < length xs \<longrightarrow>
            v \<le> xs ! nat (binarySearch_loop (map Num xs) (Num v) (i + 1) r))"
        by (simp add: i_def)
      have "binarySearch_loop (map Num xs) (Num v) l r =
            binarySearch_loop (map Num xs) (Num v) (i + 1) r"
        using bs lt False by simp
      then show ?thesis using ih il by simp
    qed
  next
    case gt
    have above: "\<forall>j. nat (i - 1) < j \<and> j < length xs \<longrightarrow> v < xs ! j"
    proof (intro allI impI)
      fix j assume a: "nat (i - 1) < j \<and> j < length xs"
      then have "nat i \<le> j" using i0 by auto
      then have "xs ! nat i \<le> xs ! j" using a by (intro mono) auto
      then show "v < xs ! j" using gt by simp
    qed
    show ?thesis
    proof (cases "i - 1 < l")
      case True
      then have ie: "i = l" using il by simp
      have res: "binarySearch_loop (map Num xs) (Num v) l r = i"
        using bs gt True by simp
      have "\<forall>j. j < nat i \<longrightarrow> xs ! j \<le> v"
        using "1.prems"(5) ie by (auto simp: less_imp_le)
      then show ?thesis using res ie ir gt ni by (simp add: less_imp_le)
    next
      case False
      have n1: "\<not> nth_js (map Num xs) ((l + r) div 2) < Num v"
        using gt ai by (simp add: i_def)
      have n2: "Num v < nth_js (map Num xs) ((l + r) div 2)"
        using gt ai by (simp add: i_def)
      from "1.hyps"(2) [OF n1 n2 _ "1.prems"(1)] False above "1.prems" i0 ir
      have ih: "l \<le> binarySearch_loop (map Num xs) (Num v) l (i - 1) \<and>
         binarySearch_loop (map Num xs) (Num v) l (i - 1) \<le> i - 1 + 1 \<and>
         (\<forall>j. j < nat (binarySearch_loop (map Num xs) (Num v) l (i - 1)) \<longrightarrow> xs ! j \<le> v) \<and>
         (nat (binarySearch_loop (map Num xs) (Num v) l (i - 1)) < length xs \<longrightarrow>
            v \<le> xs ! nat (binarySearch_loop (map Num xs) (Num v) l (i - 1)))"
        by (simp add: i_def)
      have "binarySearch_loop (map Num xs) (Num v) l r =
            binarySearch_loop (map Num xs) (Num v) l (i - 1)"
        using bs gt False by simp
      then show ?thesis using ih ir by simp
    qed
  next
    case eq
    have r: "binarySearch_loop (map Num xs) (Num v) l r = i"
      using bs eq by simp
    have "\<forall>j. j < nat i \<longrightarrow> xs ! j \<le> v"
    proof (intro allI impI)
      fix j assume "j < nat i"
      then have "xs ! j \<le> xs ! nat i" using ni by (intro mono) auto
      then show "xs ! j \<le> v" using eq by simp
    qed
    then show ?thesis using r il ir eq by simp
  qed
qed

lemma binarySearch_weak:
  assumes "xs \<noteq> []" and "sorted_wrt (\<le>) xs"
  shows "0 \<le> binarySearch (map Num xs) (Num v) \<and>
         binarySearch (map Num xs) (Num v) \<le> int (length xs) \<and>
         (\<forall>j. j < nat (binarySearch (map Num xs) (Num v)) \<longrightarrow> xs ! j \<le> v) \<and>
         (nat (binarySearch (map Num xs) (Num v)) < length xs \<longrightarrow>
            v \<le> xs ! nat (binarySearch (map Num xs) (Num v)))"
proof -
  have a: "0 \<le> int (length xs) - 1" using assms(1) by (cases xs) auto
  have b: "\<forall>j. nat (int (length xs) - 1) < j \<and> j < length xs \<longrightarrow> v < xs ! j"
    by auto
  have c: "\<forall>j. j < nat 0 \<longrightarrow> xs ! j < v" by simp
  from binarySearch_loop_weak [OF assms(2) _ a _ c b] show ?thesis
    by (simp add: binarySearch_def)
qed

lemma getTrackRange_start_weak:
  fixes x :: rat and d :: number
  assumes ne: "xs \<noteq> []" and so: "sorted_wrt (\<le>) xs" and bo: "blockOffsets this = map Num xs"
  defines "start \<equiv> fst (FloatSide_getTrackRange this (Num x) d)"
  shows "- 1 \<le> start" and "start < int (length xs)"
    and "0 \<le> start \<longrightarrow> xs ! nat start \<le> x"
    and "start + 1 < int (length xs) \<longrightarrow> x \<le> xs ! nat (start + 1)"
proof -
  define k where "k = binarySearch (map Num xs) (Num x)"
  from binarySearch_weak [OF ne so, of x]
  have k0: "0 \<le> k" and kl: "k \<le> int (length xs)"
    and below: "\<forall>j. j < nat k \<longrightarrow> xs ! j \<le> x"
    and at: "nat k < length xs \<longrightarrow> x \<le> xs ! nat k"
    by (simp_all add: k_def)
  have mono: "\<And>j k. j \<le> k \<Longrightarrow> k < length xs \<Longrightarrow> xs ! j \<le> xs ! k"
    using so by (simp add: sorted_iff_nth_mono)
  have sne: "strict_ne (nth_js (map Num xs) k) (Num x) = (\<not> (k < int (length xs) \<and> xs ! nat k = x))"
    using k0 by (auto simp: strict_ne_def nth_js_def)
  have st: "start = (if k < int (length xs) \<and> xs ! nat k = x then k else k - 1)"
    unfolding start_def FloatSide_getTrackRange_def Let_def bo k_def [symmetric] sne
    by simp
  show "- 1 \<le> start" using st k0 by auto
  show "start < int (length xs)" using st kl by auto
  show "0 \<le> start \<longrightarrow> xs ! nat start \<le> x"
  proof (cases "k < int (length xs) \<and> xs ! nat k = x")
    case True
    then show ?thesis using st by simp
  next
    case False
    then have s: "start = k - 1" using st by simp
    show ?thesis
    proof
      assume "0 \<le> start"
      then have "nat start < nat k" using s by auto
      then show "xs ! nat start \<le> x" using below by simp
    qed
  qed
  show "start + 1 < int (length xs) \<longrightarrow> x \<le> xs ! nat (start + 1)"
  proof (cases "k < int (length xs) \<and> xs ! nat k = x")
    case True
    then have s: "start = k" using st by simp
    show ?thesis
    proof
      assume a: "start + 1 < int (length xs)"
      have "xs ! nat k \<le> xs ! nat (k + 1)"
        using a s k0 by (intro mono) auto
      then show "x \<le> xs ! nat (start + 1)" using True s by simp
    qed
  next
    case False
    then have s: "start = k - 1" using st by simp
    show ?thesis
    proof
      assume a: "start + 1 < int (length xs)"
      then have "nat k < length xs" using s k0 by auto
      then have "x \<le> xs ! nat k" using at by simp
      then show "x \<le> xs ! nat (start + 1)" using s by simp
    qed
  qed
qed

lemma sorted_insert_at:
  fixes v :: "'a::linorder"
  assumes so: "sorted_wrt (\<le>) xs" and k: "k \<le> length xs"
    and lo: "0 < k \<longrightarrow> xs ! (k - 1) \<le> v" and hi: "k < length xs \<longrightarrow> v \<le> xs ! k"
  shows "sorted_wrt (\<le>) (take k xs @ v # drop k xs)"
proof -
  have mono: "\<And>i j. i \<le> j \<Longrightarrow> j < length xs \<Longrightarrow> xs ! i \<le> xs ! j"
    using so by (simp add: sorted_iff_nth_mono)
  have a: "\<forall>x \<in> set (take k xs). x \<le> v"
  proof
    fix x assume "x \<in> set (take k xs)"
    then obtain j where j: "j < k" "j < length xs" "x = xs ! j"
      by (auto simp: in_set_conv_nth)
    have "xs ! j \<le> xs ! (k - 1)" using j k by (intro mono) auto
    then show "x \<le> v" using lo j by auto
  qed
  have b: "\<forall>y \<in> set (drop k xs). v \<le> y"
  proof
    fix y assume "y \<in> set (drop k xs)"
    then obtain j where "j < length (drop k xs)" "y = drop k xs ! j"
      by (auto simp: in_set_conv_nth)
    then have j: "k + j < length xs" "y = xs ! (k + j)"
      using k by auto
    have "xs ! k \<le> xs ! (k + j)" using j by (intro mono) auto
    then show "v \<le> y" using hi j by auto
  qed
  have c: "sorted_wrt (\<le>) (take k xs)" "sorted_wrt (\<le>) (drop k xs)"
    using so by simp_all
  show ?thesis
    using a b c by (fastforce simp: sorted_wrt_append)
qed

lemma FloatSide_inv_rounded_new: "FloatSide_inv_rounded (FloatSide_new (Num b))"
  unfolding FloatSide_inv_rounded_def lengths_equal_def FloatSide_new_def
  by (auto intro!: exI [of _ "[b]"])

lemma FloatSide_inv_rounded_shelf:
  assumes "FloatSide_inv_rounded s"
  shows "FloatSide_inv_rounded
    (s\<lparr>shelfBlockOffset := Num b,
       shelfTrackIndex := fst (FloatSide_getTrackRange (s\<lparr>shelfBlockOffset := Num b\<rparr>) (Num b) 0)\<rparr>)"
proof -
  from assms obtain xs where xs: "blockOffsets s = map Num xs" "xs \<noteq> []" "sorted_wrt (\<le>) xs"
    and le: "lengths_equal s"
    by (auto simp: FloatSide_inv_rounded_def)
  have bo: "blockOffsets (s\<lparr>shelfBlockOffset := Num b\<rparr>) = map Num xs" using xs by simp
  note st = getTrackRange_start_weak [OF xs(2) xs(3) bo, of b 0]
  show ?thesis
    unfolding FloatSide_inv_rounded_def
    using le xs st by (auto simp: lengths_equal_def)
qed

lemma FloatSide_inv_rounded_boxStart:
  "FloatSide_inv_rounded s \<Longrightarrow> FloatSide_inv_rounded (FloatSide_boxStart (Num b) s)"
  using FloatSide_inv_rounded_shelf [of s b] by (simp add: FloatSide_boxStart_def Let_def)

lemma FloatSide_inv_rounded_dropShelf:
  "FloatSide_inv_rounded s \<Longrightarrow> FloatSide_inv_rounded (FloatSide_dropShelf (Num b) s)"
  using FloatSide_inv_rounded_shelf [of s b] by (simp add: FloatSide_dropShelf_def Let_def)

text \<open>After the first split of a placement the shelf sits on the top of its track.\<close>

lemma FloatSide_inv_rounded_splitIfShelfDropped:
  assumes "FloatSide_inv_rounded s"
  defines "s' \<equiv> FloatSide_splitIfShelfDropped s"
  shows "FloatSide_inv_rounded s'" and "shelfBlockOffset s' = shelfBlockOffset s"
    and "0 \<le> shelfTrackIndex s'"
    and "nth_js (blockOffsets s') (shelfTrackIndex s') = shelfBlockOffset s'"
proof -
  from assms(1) obtain xs b where xs: "blockOffsets s = map Num xs" "xs \<noteq> []" "sorted_wrt (\<le>) xs"
    and b: "shelfBlockOffset s = Num b"
    and i1: "- 1 \<le> shelfTrackIndex s" and i2: "shelfTrackIndex s < int (length xs)"
    and lo: "0 \<le> shelfTrackIndex s \<longrightarrow> xs ! nat (shelfTrackIndex s) \<le> b"
    and hi: "shelfTrackIndex s + 1 < int (length xs) \<longrightarrow> b \<le> xs ! nat (shelfTrackIndex s + 1)"
    and le: "lengths_equal s"
    by (auto simp: FloatSide_inv_rounded_def)
  define i where "i = shelfTrackIndex s"
  note sne = strict_ne_Num_nth [OF xs(1), of i b]
  consider (same) "0 \<le> i \<and> xs ! nat i = b" | (split) "\<not> (0 \<le> i \<and> xs ! nat i = b)"
    by blast
  then have "FloatSide_inv_rounded s' \<and> shelfBlockOffset s' = shelfBlockOffset s \<and>
    0 \<le> shelfTrackIndex s' \<and> nth_js (blockOffsets s') (shelfTrackIndex s') = shelfBlockOffset s'"
  proof cases
    case same
    then have "s' = s"
      using sne i2 by (simp add: s'_def FloatSide_splitIfShelfDropped_def i_def b)
    then show ?thesis
      using assms(1) same i2 xs(1) b nth_js_map_Num [of i xs] by (simp add: i_def)
  next
    case split
    define k where "k = nat (i + 1)"
    define ys where "ys = take k xs @ b # drop k xs"
    have k: "k \<le> length xs" "int k = i + 1" using i1 i2 by (auto simp: k_def i_def)
    have s': "s' = (FloatSide_splitTrack i (Num b) s)\<lparr>shelfTrackIndex := i + 1\<rparr>"
      using sne i2 split
      by (simp add: s'_def FloatSide_splitIfShelfDropped_def i_def b Let_def FloatSide_splitTrack_def)
    have "splice_insert xs (i + 1) b = ys"
      using i1 i2 by (simp add: splice_insert_in_range ys_def k_def i_def)
    then have bo': "blockOffsets s' = map Num ys"
      using xs(1) by (simp add: s' FloatSide_splitTrack_def Let_def splice_insert_map)
    have below: "0 < k \<longrightarrow> xs ! (k - 1) \<le> b"
    proof
      assume "0 < k"
      then have "0 \<le> i" "k - 1 = nat i" using k by auto
      then show "xs ! (k - 1) \<le> b" using lo by (auto simp: i_def)
    qed
    have above: "k < length xs \<longrightarrow> b \<le> xs ! k"
      using hi k by (auto simp: i_def k_def)
    have so: "sorted_wrt (\<le>) ys"
      unfolding ys_def using xs(3) k(1) below above by (rule sorted_insert_at)
    have len: "length ys = Suc (length xs)" using k by (simp add: ys_def)
    have at: "ys ! k = b" using k by (simp add: ys_def nth_insert_at)
    have next_: "Suc k < length ys \<longrightarrow> b \<le> ys ! Suc k"
    proof
      assume "Suc k < length ys"
      then have "k < length xs" using len by simp
      then show "b \<le> ys ! Suc k" using above k by (simp add: ys_def nth_insert_at)
    qed
    have idx: "shelfTrackIndex s' = int k" "shelfBlockOffset s' = Num b"
      using k b by (simp_all add: s' FloatSide_splitTrack_def Let_def)
    have le': "lengths_equal s'"
      using lengths_equal_splitTrack [OF le, of i "Num b"] by (simp add: s' lengths_equal_def)
    have a1: "0 \<le> shelfTrackIndex s' \<longrightarrow> ys ! nat (shelfTrackIndex s') \<le> b"
      using idx at by simp
    have "nat (int k + 1) = Suc k" by simp
    then have a2: "shelfTrackIndex s' + 1 < int (length ys) \<longrightarrow> b \<le> ys ! nat (shelfTrackIndex s' + 1)"
      using idx next_ by auto
    have a3: "- 1 \<le> shelfTrackIndex s'" "shelfTrackIndex s' < int (length ys)" "ys \<noteq> []"
      using idx len k by (auto simp: ys_def)
    have "FloatSide_inv_rounded s'"
      unfolding FloatSide_inv_rounded_def
      using le' bo' so idx(2) a1 a2 a3 by blast
    moreover have "nth_js (blockOffsets s') (shelfTrackIndex s') = shelfBlockOffset s'"
    proof -
      have "nth_js (map Num ys) (int k) = Num (ys ! nat (int k))"
        using len k(1) by (intro nth_js_map_Num) auto
      then show ?thesis using bo' idx(1,2) at by simp
    qed
    ultimately show ?thesis using idx b by simp
  qed
  then show "FloatSide_inv_rounded s'" "shelfBlockOffset s' = shelfBlockOffset s"
    "0 \<le> shelfTrackIndex s'"
    "nth_js (blockOffsets s') (shelfTrackIndex s') = shelfBlockOffset s'"
    by simp_all
qed

text \<open>
  The two splits of a placement keep the block offsets in order, whatever number not below
  the shelf the sum of the shelf and the block size is.
\<close>

lemma FloatSide_inv_rounded_placeFloat_split:
  assumes "FloatSide_inv_rounded s" and "placeFloat_split_with add bSize s = (s', st, en)"
    and ok: "not_below add (shelfBlockOffset s) bSize"
  shows "FloatSide_inv_rounded s'" and "0 \<le> st" and "en \<le> int (length (blockOffsets s'))"
    and "shelfBlockOffset s' = shelfBlockOffset s"
proof -
  define s1 where "s1 = FloatSide_splitIfShelfDropped s"
  note i1 = FloatSide_inv_rounded_splitIfShelfDropped [OF assms(1), folded s1_def]
  from i1(1) obtain xs b where xs: "blockOffsets s1 = map Num xs" "xs \<noteq> []" "sorted_wrt (\<le>) xs"
    and b: "shelfBlockOffset s1 = Num b"
    and i2: "shelfTrackIndex s1 < int (length xs)"
    and hi: "shelfTrackIndex s1 + 1 < int (length xs) \<longrightarrow> b \<le> xs ! nat (shelfTrackIndex s1 + 1)"
    and le: "lengths_equal s1"
    by (auto simp: FloatSide_inv_rounded_def)
  define i where "i = shelfTrackIndex s1"
  have i0: "0 \<le> i" using i1(3) by (simp add: i_def)
  have at: "xs ! nat i = b"
    using i1(4) xs(1) b i0 i2 nth_js_map_Num [of i xs] by (simp add: i_def)
  have st: "st = i"
    using assms(2) by (auto simp: placeFloat_split_with_def Let_def s1_def i_def)
  have "FloatSide_inv_rounded s' \<and> en \<le> int (length (blockOffsets s')) \<and>
        shelfBlockOffset s' = shelfBlockOffset s"
  proof (cases "bSize > 0")
    case False
    then have "s' = s1" "en = i"
      using assms(2) by (auto simp: placeFloat_split_with_def Let_def s1_def i_def)
    then show ?thesis using i1 i2 xs(1) by (simp add: i_def)
  next
    case True
    have "Num b \<le> add (Num b) bSize"
      using ok True i1(2) b by (simp add: not_below_def)
    then obtain e where e: "add (Num b) bSize = Num e" "b \<le> e"
      by (cases "add (Num b) bSize") auto
    define n where "n = getEndTrack_loop (map Num xs) (Num e) (i + 1)"
    have e1: "i + 1 \<le> n" and e2: "n \<le> int (length xs)"
      using getEndTrack_loop_bounds [of "i + 1" "map Num xs" "Num e"] i2
      by (auto simp: n_def i_def)
    have "0 \<le> i + 1" using i0 by simp
    from getEndTrack_loop_spec [OF this, of xs e, folded n_def]
    have e3: "\<forall>j. i + 1 \<le> j \<and> j < n \<longrightarrow> xs ! nat j < e"
      and e4: "n < int (length xs) \<longrightarrow> e \<le> xs ! nat n"
      by simp_all
    have en: "en = n"
      using assms(2) True
      by (auto simp: placeFloat_split_with_def Let_def s1_def [symmetric] i_def [symmetric]
          FloatSide_getEndTrack_with_def xs(1) b e n_def)
    note sne = strict_ne_Num_nth [OF xs(1), of n e]
    show ?thesis
    proof (cases "0 \<le> n \<and> n < int (length xs) \<and> xs ! nat n = e")
      case same: True
      then have "s' = s1"
        using assms(2) True sne
        by (auto simp: placeFloat_split_with_def Let_def s1_def [symmetric] i_def [symmetric]
            FloatSide_getEndTrack_with_def xs(1) b e n_def)
      then show ?thesis using i1 en same xs(1) by simp
    next
      case split: False
      define k where "k = nat n"
      define ys where "ys = take k xs @ e # drop k xs"
      have k: "k \<le> length xs" "int k = n" "0 < k" using e1 e2 i0 by (auto simp: k_def)
      have s': "s' = FloatSide_splitTrack (n - 1) (Num e) s1"
        using assms(2) True sne split
        by (auto simp: placeFloat_split_with_def Let_def s1_def [symmetric] i_def [symmetric]
            FloatSide_getEndTrack_with_def xs(1) b e n_def)
      have "splice_insert xs (n - 1 + 1) e = ys"
        using e1 e2 i0 by (simp add: splice_insert_in_range ys_def k_def)
      then have bo': "blockOffsets s' = map Num ys"
        using xs(1) by (simp add: s' FloatSide_splitTrack_def Let_def splice_insert_map)
      have below: "0 < k \<longrightarrow> xs ! (k - 1) \<le> e"
      proof
        assume "0 < k"
        show "xs ! (k - 1) \<le> e"
        proof (cases "n - 1 = i")
          case True
          then have "k - 1 = nat i" using k by auto
          then show ?thesis using at e by simp
        next
          case False
          then have "i + 1 \<le> n - 1 \<and> n - 1 < n" using e1 by auto
          then have "xs ! nat (n - 1) < e" using e3 by blast
          moreover have "nat (n - 1) = k - 1" using k by auto
          ultimately show ?thesis by simp
        qed
      qed
      have above: "k < length xs \<longrightarrow> e \<le> xs ! k"
      proof
        assume a: "k < length xs"
        then have "n < int (length xs)" using k by auto
        then have "e \<le> xs ! nat n" using e4 by simp
        then show "e \<le> xs ! k" by (simp add: k_def)
      qed
      have so: "sorted_wrt (\<le>) ys"
        unfolding ys_def using xs(3) k(1) below above by (rule sorted_insert_at)
      have len: "length ys = Suc (length xs)" using k by (simp add: ys_def)
      have ik: "nat i < k" using e1 i0 k by auto
      have a1: "ys ! nat i \<le> b"
        using ik k at by (simp add: ys_def nth_insert_at)
      have a2: "b \<le> ys ! nat (i + 1)"
      proof (cases "nat (i + 1) < k")
        case True
        then have "i + 1 < int (length xs)" using k i0 by auto
        then have "b \<le> xs ! nat (i + 1)" using hi by (simp add: i_def)
        then show ?thesis using True k by (simp add: ys_def nth_insert_at)
      next
        case False
        then have "nat (i + 1) = k" using ik i0 by auto
        then show ?thesis using k e by (simp add: ys_def nth_insert_at)
      qed
      have idx: "shelfTrackIndex s' = i" "shelfBlockOffset s' = Num b"
        using b by (simp_all add: s' FloatSide_splitTrack_def Let_def i_def)
      have le': "lengths_equal s'"
        using lengths_equal_splitTrack [OF le] by (simp add: s')
      have a3: "- 1 \<le> shelfTrackIndex s'" "shelfTrackIndex s' < int (length ys)" "ys \<noteq> []"
        using idx len i0 i2 by (auto simp: ys_def i_def)
      have "FloatSide_inv_rounded s'"
        unfolding FloatSide_inv_rounded_def
        using le' bo' so idx a1 a2 a3 by auto
      then show ?thesis using bo' len en e2 idx b i1(2) by simp
    qed
  qed
  then show "FloatSide_inv_rounded s'" "0 \<le> st" "en \<le> int (length (blockOffsets s'))"
    "shelfBlockOffset s' = shelfBlockOffset s"
    using st i0 by simp_all
qed

text \<open>
  The same for \<open>FloatSide_inv\<close>, when the sum is above the shelf: the offsets stay
  distinct.
\<close>

lemma FloatSide_inv_placeFloat_split_with:
  assumes "FloatSide_inv s" and "placeFloat_split_with add bSize s = (s', st, en)"
    and ok: "above add (shelfBlockOffset s) bSize"
  shows "FloatSide_inv s'" and "0 \<le> st" and "en \<le> int (length (blockOffsets s'))"
    and "shelfBlockOffset s' = shelfBlockOffset s"
proof -
  define s1 where "s1 = FloatSide_splitIfShelfDropped s"
  note i1 = FloatSide_inv_splitIfShelfDropped [OF assms(1), folded s1_def]
  from i1(1) obtain xs b where xs: "blockOffsets s1 = map Num xs" "xs \<noteq> []" "sorted_wrt (<) xs"
    and b: "shelfBlockOffset s1 = Num b"
    and i2: "shelfTrackIndex s1 < int (length xs)"
    and hi: "shelfTrackIndex s1 + 1 < int (length xs) \<longrightarrow> b < xs ! nat (shelfTrackIndex s1 + 1)"
    and le: "lengths_equal s1"
    by (auto simp: FloatSide_inv_def)
  define i where "i = shelfTrackIndex s1"
  have i0: "0 \<le> i" using i1(3) by (simp add: i_def)
  have at: "xs ! nat i = b"
    using i1(4) xs(1) b i0 i2 nth_js_map_Num [of i xs] by (simp add: i_def)
  have st: "st = i"
    using assms(2) by (auto simp: placeFloat_split_with_def Let_def s1_def i_def)
  have "FloatSide_inv s' \<and> en \<le> int (length (blockOffsets s')) \<and>
        shelfBlockOffset s' = shelfBlockOffset s"
  proof (cases "bSize > 0")
    case False
    then have "s' = s1" "en = i"
      using assms(2) by (auto simp: placeFloat_split_with_def Let_def s1_def i_def)
    then show ?thesis using i1 i2 xs(1) by (simp add: i_def)
  next
    case True
    have "Num b < add (Num b) bSize"
      using ok True i1(2) b by (simp add: above_def)
    then obtain e where e: "add (Num b) bSize = Num e" "b < e"
      by (cases "add (Num b) bSize") auto
    define n where "n = getEndTrack_loop (map Num xs) (Num e) (i + 1)"
    have e1: "i + 1 \<le> n" and e2: "n \<le> int (length xs)"
      using getEndTrack_loop_bounds [of "i + 1" "map Num xs" "Num e"] i2
      by (auto simp: n_def i_def)
    have "0 \<le> i + 1" using i0 by simp
    from getEndTrack_loop_spec [OF this, of xs e, folded n_def]
    have e3: "\<forall>j. i + 1 \<le> j \<and> j < n \<longrightarrow> xs ! nat j < e"
      and e4: "n < int (length xs) \<longrightarrow> e \<le> xs ! nat n"
      by simp_all
    have en: "en = n"
      using assms(2) True
      by (auto simp: placeFloat_split_with_def Let_def s1_def [symmetric] i_def [symmetric]
          FloatSide_getEndTrack_with_def xs(1) b e n_def)
    note sne = strict_ne_Num_nth [OF xs(1), of n e]
    show ?thesis
    proof (cases "0 \<le> n \<and> n < int (length xs) \<and> xs ! nat n = e")
      case same: True
      then have "s' = s1"
        using assms(2) True sne
        by (auto simp: placeFloat_split_with_def Let_def s1_def [symmetric] i_def [symmetric]
            FloatSide_getEndTrack_with_def xs(1) b e n_def)
      then show ?thesis using i1 en same xs(1) by simp
    next
      case split: False
      define k where "k = nat n"
      define ys where "ys = take k xs @ e # drop k xs"
      have k: "k \<le> length xs" "int k = n" "0 < k" using e1 e2 i0 by (auto simp: k_def)
      have s': "s' = FloatSide_splitTrack (n - 1) (Num e) s1"
        using assms(2) True sne split
        by (auto simp: placeFloat_split_with_def Let_def s1_def [symmetric] i_def [symmetric]
            FloatSide_getEndTrack_with_def xs(1) b e n_def)
      have "splice_insert xs (n - 1 + 1) e = ys"
        using e1 e2 i0 by (simp add: splice_insert_in_range ys_def k_def)
      then have bo': "blockOffsets s' = map Num ys"
        using xs(1) by (simp add: s' FloatSide_splitTrack_def Let_def splice_insert_map)
      have below: "0 < k \<longrightarrow> xs ! (k - 1) < e"
      proof
        assume "0 < k"
        show "xs ! (k - 1) < e"
        proof (cases "n - 1 = i")
          case True
          then have "k - 1 = nat i" using k by auto
          then show ?thesis using at e by simp
        next
          case False
          then have "i + 1 \<le> n - 1 \<and> n - 1 < n" using e1 by auto
          then have "xs ! nat (n - 1) < e" using e3 by blast
          moreover have "nat (n - 1) = k - 1" using k by auto
          ultimately show ?thesis by simp
        qed
      qed
      have above: "k < length xs \<longrightarrow> e < xs ! k"
      proof
        assume a: "k < length xs"
        then have "n < int (length xs)" using k by auto
        then have "e \<le> xs ! nat n" "xs ! nat n \<noteq> e" using e4 split e1 i0 by auto
        then show "e < xs ! k" by (simp add: k_def)
      qed
      have so: "sorted_wrt (<) ys"
        unfolding ys_def using xs(3) k(1) below above by (rule sorted_wrt_insert_at)
      have len: "length ys = Suc (length xs)" using k by (simp add: ys_def)
      have ik: "nat i < k" using e1 i0 k by auto
      have a1: "ys ! nat i \<le> b"
        using ik k at by (simp add: ys_def nth_insert_at)
      have a2: "b < ys ! nat (i + 1)"
      proof (cases "nat (i + 1) < k")
        case True
        then have "i + 1 < int (length xs)" using k i0 by auto
        then have "b < xs ! nat (i + 1)" using hi by (simp add: i_def)
        then show ?thesis using True k by (simp add: ys_def nth_insert_at)
      next
        case False
        then have "nat (i + 1) = k" using ik i0 by auto
        then show ?thesis using k e by (simp add: ys_def nth_insert_at)
      qed
      have idx: "shelfTrackIndex s' = i" "shelfBlockOffset s' = Num b"
        using b by (simp_all add: s' FloatSide_splitTrack_def Let_def i_def)
      have le': "lengths_equal s'"
        using lengths_equal_splitTrack [OF le] by (simp add: s')
      have a3: "- 1 \<le> shelfTrackIndex s'" "shelfTrackIndex s' < int (length ys)" "ys \<noteq> []"
        using idx len i0 i2 by (auto simp: ys_def i_def)
      have "FloatSide_inv s'"
        unfolding FloatSide_inv_def
        using le' bo' so idx a1 a2 a3 by auto
      then show ?thesis using bo' len en e2 idx b i1(2) by simp
    qed
  qed
  then show "FloatSide_inv s'" "0 \<le> st" "en \<le> int (length (blockOffsets s'))"
    "shelfBlockOffset s' = shelfBlockOffset s"
    using st i0 by simp_all
qed

lemma placeFloat_track_with_frame:
  assumes "lengths_equal s" and "0 \<le> t" and "t < int (length (blockOffsets s))"
  shows "blockOffsets (placeFloat_track_with add c mo w me t s) = blockOffsets s"
    and "shelfBlockOffset (placeFloat_track_with add c mo w me t s) = shelfBlockOffset s"
    and "shelfTrackIndex (placeFloat_track_with add c mo w me t s) = shelfTrackIndex s"
    and "lengths_equal (placeFloat_track_with add c mo w me t s)"
  using assms by (simp_all add: placeFloat_track_with_def Let_def lengths_equal_def set_js_in_range)

lemma placeFloat_loop_with_frame:
  assumes "lengths_equal s" and "0 \<le> t" and "en \<le> int (length (blockOffsets s))"
  shows "blockOffsets (placeFloat_loop_with add c mo w me en t s) = blockOffsets s \<and>
         shelfBlockOffset (placeFloat_loop_with add c mo w me en t s) = shelfBlockOffset s \<and>
         shelfTrackIndex (placeFloat_loop_with add c mo w me en t s) = shelfTrackIndex s \<and>
         lengths_equal (placeFloat_loop_with add c mo w me en t s)"
  using assms
proof (induction add c mo w me en t s rule: placeFloat_loop_with.induct)
  case (1 add c mo w me en t s)
  note sm = placeFloat_loop_with.simps [of add c mo w me en t s]
  show ?case
  proof (cases "t < en")
    case False
    then show ?thesis using sm "1.prems" by simp
  next
    case True
    then have r: "t < int (length (blockOffsets s))" using "1.prems" by simp
    note f = placeFloat_track_with_frame [OF "1.prems"(1,2) r, of add c mo w me]
    have "0 \<le> t + 1" using "1.prems" by simp
    moreover have "en \<le> int (length (blockOffsets (placeFloat_track_with add c mo w me t s)))"
      using f(1) "1.prems" by simp
    ultimately show ?thesis
      using "1.IH" [OF True f(4)] f sm True by simp
  qed
qed

lemma FloatSide_inv_rounded_frame:
  "FloatSide_inv_rounded s \<Longrightarrow> blockOffsets s' = blockOffsets s \<Longrightarrow>
   shelfBlockOffset s' = shelfBlockOffset s \<Longrightarrow> shelfTrackIndex s' = shelfTrackIndex s \<Longrightarrow>
   lengths_equal s' \<Longrightarrow> FloatSide_inv_rounded s'"
  by (simp add: FloatSide_inv_rounded_def)

lemma FloatSide_inv_rounded_placeFloat:
  assumes "FloatSide_inv_rounded s"
    and "not_below add (shelfBlockOffset s) (placeFloat_blockSize_with add box h)"
  shows "FloatSide_inv_rounded
           (fst (state_of (FloatSide_placeFloat_with add sub box vacancy l r (s, h))))"
proof -
  define bSize where "bSize = placeFloat_blockSize_with add box h"
  obtain s1 st en where sp: "placeFloat_split_with add bSize s = (s1, st, en)"
    by (cases "placeFloat_split_with add bSize s") auto
  note i1 = FloatSide_inv_rounded_placeFloat_split [OF assms(1) sp assms(2) [folded bSize_def]]
  have le: "lengths_equal s1" using i1(1) by (simp add: FloatSide_inv_rounded_def)
  have loop: "\<And>c mo w me. FloatSide_inv_rounded
      ((placeFloat_loop_with add c mo w me en st s1)
         \<lparr>items := items (placeFloat_loop_with add c mo w me en st s1) @ [box]\<rparr>)"
  proof -
    fix c mo w me
    note f = placeFloat_loop_with_frame [OF le i1(2) i1(3), of add c mo w me]
    show "FloatSide_inv_rounded
      ((placeFloat_loop_with add c mo w me en st s1)
         \<lparr>items := items (placeFloat_loop_with add c mo w me en st s1) @ [box]\<rparr>)"
      using f by (intro FloatSide_inv_rounded_frame [OF i1(1)]) (auto simp: lengths_equal_def)
  qed
  show ?thesis
    using assms(1) i1(1) loop sp
    by (simp add: FloatSide_placeFloat_with_def Let_def bSize_def [symmetric] split: outcome.splits)
qed

lemma FloatSide_inv_placeFloat_with:
  assumes "FloatSide_inv s"
    and "above add (shelfBlockOffset s) (placeFloat_blockSize_with add box h)"
  shows "FloatSide_inv (fst (state_of (FloatSide_placeFloat_with add sub box vacancy l r (s, h))))"
proof -
  define bSize where "bSize = placeFloat_blockSize_with add box h"
  obtain s1 st en where sp: "placeFloat_split_with add bSize s = (s1, st, en)"
    by (cases "placeFloat_split_with add bSize s") auto
  note i1 = FloatSide_inv_placeFloat_split_with [OF assms(1) sp assms(2) [folded bSize_def]]
  have le: "lengths_equal s1" using i1(1) by (simp add: FloatSide_inv_def)
  have loop: "\<And>c mo w me. FloatSide_inv
      ((placeFloat_loop_with add c mo w me en st s1)
         \<lparr>items := items (placeFloat_loop_with add c mo w me en st s1) @ [box]\<rparr>)"
  proof -
    fix c mo w me
    note f = placeFloat_loop_with_frame [OF le i1(2) i1(3), of add c mo w me]
    show "FloatSide_inv
      ((placeFloat_loop_with add c mo w me en st s1)
         \<lparr>items := items (placeFloat_loop_with add c mo w me en st s1) @ [box]\<rparr>)"
      using f by (intro FloatSide_inv_frame [OF i1(1)]) (auto simp: lengths_equal_def)
  qed
  show ?thesis
    using assms(1) i1(1) loop sp
    by (simp add: FloatSide_placeFloat_with_def Let_def bSize_def [symmetric] split: outcome.splits)
qed

lemma FloatSide_reachable_with_rounded:
  "FloatSide_reachable_with not_below s \<Longrightarrow> FloatSide_inv_rounded s"
proof (induction rule: FloatSide_reachable_with.induct)
  case (with_new b)
  show ?case by (rule FloatSide_inv_rounded_new)
next
  case (with_boxStart s b)
  then show ?case by (simp add: FloatSide_inv_rounded_boxStart)
next
  case (with_dropShelf s b)
  then show ?case by (simp add: FloatSide_inv_rounded_dropShelf)
next
  case (with_placeFloat s add box h sub vacancy l r)
  then show ?case by (simp add: FloatSide_inv_rounded_placeFloat)
qed

lemma FloatSide_reachable_with_above:
  "FloatSide_reachable_with above s \<Longrightarrow> FloatSide_inv s"
proof (induction rule: FloatSide_reachable_with.induct)
  case (with_new b)
  show ?case by (rule FloatSide_inv_new)
next
  case (with_boxStart s b)
  then show ?case by (simp add: FloatSide_inv_boxStart)
next
  case (with_dropShelf s b)
  then show ?case by (simp add: FloatSide_inv_dropShelf)
next
  case (with_placeFloat s add box h sub vacancy l r)
  then show ?case by (simp add: FloatSide_inv_placeFloat_with)
qed

text \<open>With exact sums these are the definitions of the sections above.\<close>

lemma placeFloat_loop_with_exact:
  "placeFloat_loop_with (+) c mo w me en t s = placeFloat_loop c mo w me en t s"
proof (induction c mo w me en t s rule: placeFloat_loop.induct)
  case (1 c mo w me en t s)
  have tr: "placeFloat_track_with (+) c mo w me t s = placeFloat_track c mo w me t s"
    by (simp add: placeFloat_track_with_def placeFloat_track_def)
  show ?case
    using "1.IH" placeFloat_loop.simps [of c mo w me en t s]
      placeFloat_loop_with.simps [of "(+)" c mo w me en t s] tr
    by (cases "t < en") simp_all
qed

lemma FloatSide_placeFloat_with_exact:
  "FloatSide_placeFloat_with (+) (-) box vacancy l r st = FloatSide_placeFloat box vacancy l r st"
proof -
  have ge: "FloatSide_getEndTrack_with (+) = FloatSide_getEndTrack"
    by (intro ext) (simp add: FloatSide_getEndTrack_with_def FloatSide_getEndTrack_def)
  have sp: "\<And>b s. placeFloat_split_with (+) b s = placeFloat_split b s"
    unfolding placeFloat_split_with_def placeFloat_split_def ge by (rule refl)
  have po: "\<And>c cl mo h. placeFloat_position_with (+) (-) box c cl mo h = placeFloat_position box c cl mo h"
    by (simp add: placeFloat_position_with_def placeFloat_position_def)
  show ?thesis
    unfolding FloatSide_placeFloat_with_def FloatSide_placeFloat_def placeFloat_blockSize_with_def
      sp po placeFloat_loop_with_exact Let_def
    by (rule refl)
qed

section \<open>Rounding to a double\<close>

lemma pow2_powi: "pow2 k = 2 powi k"
  by (simp add: pow2_def power_int_def inverse_eq_divide power_divide)

lemma bit_length_bounds:
  "0 < n \<Longrightarrow> 1 \<le> bit_length n \<and> 2 ^ nat (bit_length n - 1) \<le> n \<and> n < 2 ^ nat (bit_length n)"
proof (induction n rule: bit_length.induct)
  case (1 n)
  note s = bit_length.simps [of n]
  show ?case
  proof (cases "n div 2 \<le> 0")
    case True
    then have n: "n = 1" using "1.prems" by linarith
    have "bit_length (n div 2) = 0"
      using True bit_length.simps [of "n div 2"] by simp
    then have "bit_length n = 1" using s "1.prems" by simp
    then show ?thesis using n by simp
  next
    case False
    then have ih: "1 \<le> bit_length (n div 2)" "2 ^ nat (bit_length (n div 2) - 1) \<le> n div 2"
      "n div 2 < 2 ^ nat (bit_length (n div 2))"
      using "1.IH" "1.prems" by simp_all
    have b: "bit_length n = bit_length (n div 2) + 1" using s "1.prems" by simp
    define m where "m = nat (bit_length (n div 2) - 1)"
    have m: "nat (bit_length (n div 2)) = Suc m" "nat (bit_length n - 1) = Suc m"
      "nat (bit_length n) = Suc (Suc m)"
      using ih(1) b by (simp_all add: m_def)
    have "2 * 2 ^ m \<le> 2 * (n div 2)" using ih(2) by (simp add: m_def)
    also have "\<dots> \<le> n" by simp
    finally have lo: "2 ^ Suc m \<le> n" by simp
    have "n div 2 + 1 \<le> 2 ^ Suc m" using ih(3) m(1) by simp
    then have "2 * (n div 2 + 1) \<le> 2 * 2 ^ Suc m" by simp
    moreover have "n < 2 * (n div 2 + 1)" by presburger
    ultimately have hi: "n < 2 ^ Suc (Suc m)" by simp
    show ?thesis using lo hi b ih(1) m by simp
  qed
qed

lemma bit_length_powi:
  assumes "0 < n"
  shows "2 powi (bit_length n - 1) \<le> (of_int n :: rat)" and "(of_int n :: rat) < 2 powi (bit_length n)"
proof -
  note b = bit_length_bounds [OF assms]
  have "(of_int (2 ^ nat (bit_length n - 1)) :: rat) \<le> of_int n"
    using b by (simp only: of_int_le_iff)
  then show "2 powi (bit_length n - 1) \<le> (of_int n :: rat)"
    using b by (simp add: power_int_def)
  have "(of_int n :: rat) < of_int (2 ^ nat (bit_length n))"
    using b by (simp only: of_int_less_iff)
  then show "(of_int n :: rat) < 2 powi (bit_length n)"
    using b by (simp add: power_int_def)
qed

lemma binade_bounds:
  assumes "x \<noteq> 0"
  shows "2 powi (binade x) \<le> \<bar>x\<bar>" and "\<bar>x\<bar> < 2 powi (binade x + 1)"
proof -
  obtain p q where pq: "quotient_of \<bar>x\<bar> = (p, q)" by (cases "quotient_of \<bar>x\<bar>")
  have q: "0 < q" using pq by (rule quotient_of_denom_pos)
  have x: "\<bar>x\<bar> = of_int p / of_int q" using pq by (rule quotient_of_div)
  have "0 < \<bar>x\<bar>" using assms by simp
  then have p: "0 < p" using x q by (simp add: zero_less_divide_iff)
  define k where "k = bit_length p - bit_length q"
  note bp = bit_length_powi [OF p] and bq = bit_length_powi [OF q]
  have qpos: "(0 :: rat) < of_int q" using q by simp
  have up: "\<bar>x\<bar> < 2 powi (k + 1)"
  proof -
    have "of_int p < (2 :: rat) powi (bit_length p)" by (rule bp(2))
    also have "\<dots> = 2 powi (k + 1) * 2 powi (bit_length q - 1)"
      by (simp add: k_def flip: power_int_add)
    also have "\<dots> \<le> 2 powi (k + 1) * of_int q"
      using bq(1) by (intro mult_left_mono) simp_all
    finally show ?thesis using qpos by (simp add: x pos_divide_less_eq)
  qed
  have lo: "2 powi (k - 1) < \<bar>x\<bar>"
  proof -
    have "(2 :: rat) powi (k - 1) * of_int q < 2 powi (k - 1) * 2 powi (bit_length q)"
      using bq(2) by (intro mult_strict_left_mono) simp_all
    also have "\<dots> = 2 powi (bit_length p - 1)"
      by (simp add: k_def flip: power_int_add)
    also have "\<dots> \<le> of_int p" by (rule bp(1))
    finally show ?thesis using qpos by (simp add: x pos_less_divide_eq)
  qed
  have b: "binade x = (if 2 powi k \<le> \<bar>x\<bar> then k else k - 1)"
    by (simp add: binade_def pq k_def pow2_powi)
  show "2 powi (binade x) \<le> \<bar>x\<bar>" using b lo by (auto simp: less_imp_le)
  show "\<bar>x\<bar> < 2 powi (binade x + 1)" using b up by auto
qed

lemma binade_le:
  assumes "x \<noteq> 0" and "y \<noteq> 0" and "\<bar>x\<bar> \<le> \<bar>y\<bar>"
  shows "binade x \<le> binade y"
proof -
  have "(2 :: rat) powi (binade x) \<le> \<bar>x\<bar>" using assms(1) by (rule binade_bounds)
  also have "\<dots> \<le> \<bar>y\<bar>" by (rule assms(3))
  also have "\<dots> < 2 powi (binade y + 1)" using assms(2) by (rule binade_bounds)
  finally have lt: "(2 :: rat) powi (binade x) < 2 powi (binade y + 1)" .
  have "binade x < binade y + 1"
  proof (rule ccontr)
    assume "\<not> binade x < binade y + 1"
    then have "binade y + 1 \<le> binade x" by simp
    then have "(2 :: rat) powi (binade y + 1) \<le> 2 powi (binade x)"
      by (intro power_int_increasing) simp_all
    then show False using lt by simp
  qed
  then show ?thesis by simp
qed

lemma round_half_even_ge: "of_int n \<le> y \<Longrightarrow> n \<le> round_half_even y"
proof -
  assume "of_int n \<le> y"
  then have "n \<le> \<lfloor>y\<rfloor>" by (simp add: le_floor_iff)
  then show ?thesis by (simp add: round_half_even_def Let_def)
qed

lemma round_half_even_le: "y \<le> of_int n \<Longrightarrow> round_half_even y \<le> n"
proof -
  assume a: "y \<le> of_int n"
  then have f: "\<lfloor>y\<rfloor> \<le> n" by (simp add: floor_le_iff)
  show ?thesis
  proof (cases "y = of_int \<lfloor>y\<rfloor>")
    case True
    then have "y - of_int \<lfloor>y\<rfloor> < 1 / 2" by simp
    then show ?thesis using f by (simp add: round_half_even_def Let_def)
  next
    case False
    then have "of_int \<lfloor>y\<rfloor> < y" using of_int_floor_le [of y] by linarith
    then have "of_int \<lfloor>y\<rfloor> < (of_int n :: rat)" using a by simp
    then have "\<lfloor>y\<rfloor> < n" by (simp only: of_int_less_iff)
    then show ?thesis by (simp add: round_half_even_def Let_def)
  qed
qed

lemma round_double_pos:
  assumes "0 < x"
  shows "2 powi (binade x) \<le> round_double x" and "round_double x \<le> 2 powi (binade x + 1)"
proof -
  define u :: rat where "u = 2 powi (binade x - 52)"
  have x0: "x \<noteq> 0" using assms by simp
  have u: "0 < u" by (simp add: u_def)
  have r: "round_double x = of_int (round_half_even (x / u)) * u"
    using x0 by (simp add: round_double_def Let_def u_def pow2_powi)
  have e1: "2 powi (binade x) = 2 ^ 52 * u"
  proof -
    have "(2 :: rat) powi (binade x) = 2 powi (52 + (binade x - 52))"
      by (rule arg_cong [where f = "\<lambda>k. 2 powi k"]) simp
    also have "\<dots> = 2 powi 52 * 2 powi (binade x - 52)" by (subst power_int_add) simp_all
    finally show ?thesis by (simp add: u_def)
  qed
  have e2: "2 powi (binade x + 1) = 2 ^ 53 * u"
  proof -
    have "(2 :: rat) powi (binade x + 1) = 2 powi (53 + (binade x - 52))"
      by (rule arg_cong [where f = "\<lambda>k. 2 powi k"]) simp
    also have "\<dots> = 2 powi 53 * 2 powi (binade x - 52)" by (subst power_int_add) simp_all
    finally show ?thesis by (simp add: u_def)
  qed
  have "2 ^ 52 * u \<le> x" using binade_bounds(1) [OF x0] assms e1 by simp
  then have "of_int (2 ^ 52) \<le> x / u" using u by (simp add: pos_le_divide_eq)
  then have "2 ^ 52 \<le> round_half_even (x / u)" by (rule round_half_even_ge)
  then have "(of_int (2 ^ 52) :: rat) \<le> of_int (round_half_even (x / u))"
    by (simp only: of_int_le_iff)
  then have "2 ^ 52 * u \<le> of_int (round_half_even (x / u)) * u"
    using u by (intro mult_right_mono) simp_all
  then show "2 powi (binade x) \<le> round_double x" using r e1 by simp
  have "x \<le> 2 ^ 53 * u" using binade_bounds(2) [OF x0] assms e2 by simp
  then have "x / u \<le> of_int (2 ^ 53)" using u by (simp add: pos_divide_le_eq)
  then have "round_half_even (x / u) \<le> 2 ^ 53" by (rule round_half_even_le)
  then have "(of_int (round_half_even (x / u)) :: rat) \<le> of_int (2 ^ 53)"
    by (simp only: of_int_le_iff)
  then have "of_int (round_half_even (x / u)) * u \<le> 2 ^ 53 * u"
    using u by (intro mult_right_mono) simp_all
  then show "round_double x \<le> 2 powi (binade x + 1)" using r e2 by simp
qed

lemma round_double_neg:
  assumes "x < 0"
  shows "- (2 powi (binade x + 1)) \<le> round_double x" and "round_double x \<le> - (2 powi (binade x))"
proof -
  define u :: rat where "u = 2 powi (binade x - 52)"
  have x0: "x \<noteq> 0" using assms by simp
  have u: "0 < u" by (simp add: u_def)
  have r: "round_double x = of_int (round_half_even (x / u)) * u"
    using x0 by (simp add: round_double_def Let_def u_def pow2_powi)
  have e1: "2 powi (binade x) = 2 ^ 52 * u"
  proof -
    have "(2 :: rat) powi (binade x) = 2 powi (52 + (binade x - 52))"
      by (rule arg_cong [where f = "\<lambda>k. 2 powi k"]) simp
    also have "\<dots> = 2 powi 52 * 2 powi (binade x - 52)" by (subst power_int_add) simp_all
    finally show ?thesis by (simp add: u_def)
  qed
  have e2: "2 powi (binade x + 1) = 2 ^ 53 * u"
  proof -
    have "(2 :: rat) powi (binade x + 1) = 2 powi (53 + (binade x - 52))"
      by (rule arg_cong [where f = "\<lambda>k. 2 powi k"]) simp
    also have "\<dots> = 2 powi 53 * 2 powi (binade x - 52)" by (subst power_int_add) simp_all
    finally show ?thesis by (simp add: u_def)
  qed
  have "x \<le> - (2 ^ 52) * u" using binade_bounds(1) [OF x0] assms e1 by simp
  then have "x / u \<le> of_int (- (2 ^ 52))" using u by (simp add: pos_divide_le_eq)
  then have "round_half_even (x / u) \<le> - (2 ^ 52)" by (rule round_half_even_le)
  then have "(of_int (round_half_even (x / u)) :: rat) \<le> of_int (- (2 ^ 52))"
    by (simp only: of_int_le_iff)
  then have "of_int (round_half_even (x / u)) * u \<le> - (2 ^ 52) * u"
    using u by (intro mult_right_mono) simp_all
  then show "round_double x \<le> - (2 powi (binade x))" using r e1 by simp
  have "- (2 ^ 53) * u \<le> x" using binade_bounds(2) [OF x0] assms e2 by simp
  then have "of_int (- (2 ^ 53)) \<le> x / u" using u by (simp add: pos_le_divide_eq)
  then have "- (2 ^ 53) \<le> round_half_even (x / u)" by (rule round_half_even_ge)
  then have "(of_int (- (2 ^ 53)) :: rat) \<le> of_int (round_half_even (x / u))"
    by (simp only: of_int_le_iff)
  then have "- (2 ^ 53) * u \<le> of_int (round_half_even (x / u)) * u"
    using u by (intro mult_right_mono) simp_all
  then show "- (2 powi (binade x + 1)) \<le> round_double x" using r e2 by simp
qed

lemma round_half_even_mono:
  assumes "x \<le> y"
  shows "round_half_even x \<le> round_half_even y"
proof (cases "\<lfloor>x\<rfloor> = \<lfloor>y\<rfloor>")
  case True
  have "x - of_int \<lfloor>x\<rfloor> \<le> y - of_int \<lfloor>y\<rfloor>" using assms True by simp
  then show ?thesis using True by (auto simp: round_half_even_def Let_def)
next
  case False
  have "\<lfloor>x\<rfloor> \<le> \<lfloor>y\<rfloor>" using assms by (rule floor_mono)
  then have "\<lfloor>x\<rfloor> + 1 \<le> \<lfloor>y\<rfloor>" using False by simp
  moreover have "round_half_even x \<le> \<lfloor>x\<rfloor> + 1" by (simp add: round_half_even_def Let_def)
  moreover have "\<lfloor>y\<rfloor> \<le> round_half_even y" by (simp add: round_half_even_def Let_def)
  ultimately show ?thesis by linarith
qed

text \<open>Rounding is monotone, and it does not cross a representable number.\<close>

lemma round_double_mono:
  assumes le: "x \<le> y"
  shows "round_double x \<le> round_double y"
proof -
  have same: "round_double x \<le> round_double y"
    if x0: "x \<noteq> 0" and y0: "y \<noteq> 0" and e: "binade x = binade y"
  proof -
    define u :: rat where "u = 2 powi (binade y - 52)"
    have u: "0 < u" by (simp add: u_def)
    have rx: "round_double x = of_int (round_half_even (x / u)) * u"
      using x0 e by (simp add: round_double_def Let_def u_def pow2_powi)
    have ry: "round_double y = of_int (round_half_even (y / u)) * u"
      using y0 by (simp add: round_double_def Let_def u_def pow2_powi)
    have "x / u \<le> y / u" using le u by (simp add: divide_right_mono)
    then have "round_half_even (x / u) \<le> round_half_even (y / u)" by (rule round_half_even_mono)
    then have "(of_int (round_half_even (x / u)) :: rat) \<le> of_int (round_half_even (y / u))"
      by (simp only: of_int_le_iff)
    then have "of_int (round_half_even (x / u)) * u \<le> of_int (round_half_even (y / u)) * u"
      using u by (intro mult_right_mono) simp_all
    then show ?thesis using rx ry by simp
  qed
  have pos: "0 < round_double z" if "0 < z" for z
  proof -
    have "(0 :: rat) < 2 powi (binade z)" by simp
    then show ?thesis using round_double_pos(1) [OF that] by linarith
  qed
  have neg: "round_double z < 0" if "z < 0" for z
  proof -
    have "(0 :: rat) < 2 powi (binade z)" by simp
    then show ?thesis using round_double_neg(2) [OF that] by linarith
  qed
  consider (xz) "x = 0" | (yz) "y = 0" "x < 0" | (pp) "0 < x" | (nn) "y < 0" | (np) "x < 0" "0 < y"
    using le by linarith
  then show ?thesis
  proof cases
    case xz
    then show ?thesis using le pos [of y] by (cases "y = 0") (simp_all add: round_double_def)
  next
    case yz
    then show ?thesis using neg [of x] by (simp add: round_double_def)
  next
    case pp
    then have yp: "0 < y" using le by simp
    have "binade x \<le> binade y" using pp yp le by (intro binade_le) simp_all
    then consider (lt) "binade x + 1 \<le> binade y" | (eq) "binade x = binade y" by linarith
    then show ?thesis
    proof cases
      case lt
      have "round_double x \<le> 2 powi (binade x + 1)" using pp by (rule round_double_pos)
      also have "\<dots> \<le> 2 powi (binade y)" using lt by (intro power_int_increasing) simp_all
      also have "\<dots> \<le> round_double y" using yp by (rule round_double_pos)
      finally show ?thesis .
    next
      case eq
      then show ?thesis using pp yp by (intro same) simp_all
    qed
  next
    case nn
    then have xn: "x < 0" using le by simp
    have "binade y \<le> binade x" using nn xn le by (intro binade_le) simp_all
    then consider (lt) "binade y + 1 \<le> binade x" | (eq) "binade x = binade y" by linarith
    then show ?thesis
    proof cases
      case lt
      have "(2 :: rat) powi (binade y + 1) \<le> 2 powi (binade x)"
        using lt by (intro power_int_increasing) simp_all
      moreover have "round_double x \<le> - (2 powi (binade x))" using xn by (rule round_double_neg)
      moreover have "- (2 powi (binade y + 1)) \<le> round_double y" using nn by (rule round_double_neg)
      ultimately show ?thesis by linarith
    next
      case eq
      then show ?thesis using nn xn by (intro same) simp_all
    qed
  next
    case np
    then show ?thesis using neg [of x] pos [of y] by simp
  qed
qed

lemma round_double_ge: "representable b \<Longrightarrow> b \<le> x \<Longrightarrow> b \<le> round_double x"
  using round_double_mono [of b x] by (simp add: representable_def)

text \<open>
  In double arithmetic the sum of a representable number and a positive number is not
  less than the representable number.
\<close>

lemma double_add_not_below: "representable b \<Longrightarrow> not_below double_add (Num b) y"
proof (cases y)
  case NaN
  then show ?thesis by (simp add: not_below_def zero_number_def)
next
  case (Num d)
  assume "representable b"
  then have "0 < d \<longrightarrow> b \<le> round_double (b + d)"
    by (auto intro: round_double_ge)
  then show ?thesis using Num by (simp add: not_below_def zero_number_def)
qed

lemma shelf_placeFloat_track_with [simp]:
  "shelfBlockOffset (placeFloat_track_with add c mo w me t s) = shelfBlockOffset s"
  by (simp add: placeFloat_track_with_def Let_def)

lemma shelf_placeFloat_loop_with [simp]:
  "shelfBlockOffset (placeFloat_loop_with add c mo w me en t s) = shelfBlockOffset s"
proof (induction add c mo w me en t s rule: placeFloat_loop_with.induct)
  case (1 add c mo w me en t s)
  show ?case
    using "1.IH" placeFloat_loop_with.simps [of add c mo w me en t s] by (cases "t < en") simp_all
qed

lemma shelf_FloatSide_placeFloat_with:
  "shelfBlockOffset (fst (state_of (FloatSide_placeFloat_with add sub box vacancy l r (s, h)))) =
   shelfBlockOffset s"
proof -
  obtain s1 st en where sp:
    "placeFloat_split_with add (placeFloat_blockSize_with add box h) s = (s1, st, en)"
    using prod_cases3 by blast
  have "shelfBlockOffset (fst (placeFloat_split_with add (placeFloat_blockSize_with add box h) s)) =
        shelfBlockOffset s"
    by (simp add: placeFloat_split_with_def FloatSide_splitIfShelfDropped_def
        FloatSide_splitTrack_def Let_def)
  then have "shelfBlockOffset s1 = shelfBlockOffset s" using sp by simp
  then show ?thesis
    using sp by (simp add: FloatSide_placeFloat_with_def Let_def split: outcome.splits)
qed

text \<open>
  The states of the double arithmetic are states in which no sum is below the shelf: the
  shelf is always a representable number.
\<close>

lemma FloatSide_reachable_double_shelf:
  "FloatSide_reachable_double s \<Longrightarrow>
   FloatSide_reachable_with not_below s \<and> (\<exists>b. shelfBlockOffset s = Num b \<and> representable b)"
proof (induction rule: FloatSide_reachable_double.induct)
  case (double_new b)
  have "FloatSide_reachable_with not_below (FloatSide_new (Num b))" by (rule with_new)
  moreover have "shelfBlockOffset (FloatSide_new (Num b)) = Num b" by (simp add: FloatSide_new_def)
  ultimately show ?case using double_new by blast
next
  case (double_boxStart s b)
  then have "FloatSide_reachable_with not_below (FloatSide_boxStart (Num b) s)"
    by (intro with_boxStart) simp
  moreover have "shelfBlockOffset (FloatSide_boxStart (Num b) s) = Num b"
    by (simp add: FloatSide_boxStart_def Let_def)
  ultimately show ?case using double_boxStart by blast
next
  case (double_dropShelf s b)
  then have "FloatSide_reachable_with not_below (FloatSide_dropShelf (Num b) s)"
    by (intro with_dropShelf) simp
  moreover have "shelfBlockOffset (FloatSide_dropShelf (Num b) s) = Num b \<or>
      shelfBlockOffset (FloatSide_dropShelf (Num b) s) = shelfBlockOffset s"
    by (simp add: FloatSide_dropShelf_def Let_def)
  ultimately show ?case using double_dropShelf by auto
next
  case (double_placeFloat s box vacancy l r h)
  then obtain b where b: "shelfBlockOffset s = Num b" "representable b" by blast
  have ok: "not_below double_add (shelfBlockOffset s) (placeFloat_blockSize_with double_add box h)"
    using double_add_not_below [OF b(2)] b(1) by simp
  have "FloatSide_reachable_with not_below
          (fst (state_of (FloatSide_placeFloat_with double_add double_sub box vacancy l r (s, h))))"
    using double_placeFloat.IH ok by (intro with_placeFloat) simp_all
  then show ?case using b by (simp add: shelf_FloatSide_placeFloat_with)
qed

section \<open>Track ordering and array lengths\<close>

lemma rounding_side_facts:
  "placeFloat_blockSize_with double_add rounding_float rounding_heap = Num (1 / 2 ^ 51)"
  "double_add (Num 10) (Num (1 / 2 ^ 51)) = Num 10"
  "blockOffsets rounding_side = [Num 10, Num 10]"
  "inlineSizes rounding_side = [Num 60, Num 0]"
  "inlineOffsets rounding_side = [Num 0, Num 0]"
  "floatCounts rounding_side = [Num 1, Num 0]"
  "representable 10"
  by code_simp+

lemma rounding_side_reachable: "FloatSide_reachable_double rounding_side"
  unfolding rounding_side_def by (intro double_placeFloat double_new rounding_side_facts)

text \<open>
  C5, as the source has it. The constructor makes all four arrays of length 1: the block
  offsets are not one longer than the other three. And the block offsets can repeat: the
  margins of \<open>rounding_float\<close> are the doubles nearest to 2.2 and -3.3 and its height the
  double nearest to 1.1, so that its block size is \<open>2\<^sup>-\<^sup>5\<^sup>1\<close>, which is positive, and the sum
  of the shelf 10 and this block size is 10 in double arithmetic; \<^verbatim>\<open>placeFloat\<close> finds no
  boundary at 10 after the first track and inserts one, so that the block offsets are 10
  and 10. The four arrays have length 2 then.
\<close>

theorem track_ordering_counterexample:
  "FloatSide_reachable_double (FloatSide_new (Num 0)) \<and>
   length (blockOffsets (FloatSide_new (Num 0))) \<noteq> length (inlineSizes (FloatSide_new (Num 0))) + 1 \<and>
   FloatSide_reachable_double rounding_side \<and>
   0 < placeFloat_blockSize_with double_add rounding_float rounding_heap \<and>
   blockOffsets rounding_side = [Num 10, Num 10] \<and>
   \<not> sorted_wrt (<) (blockOffsets rounding_side) \<and>
   length (blockOffsets rounding_side) \<noteq> length (inlineSizes rounding_side) + 1"
proof -
  have "representable 0" by code_simp
  then have "FloatSide_reachable_double (FloatSide_new (Num 0))"
    by (rule double_new)
  moreover have "length (blockOffsets (FloatSide_new (Num 0))) \<noteq>
      length (inlineSizes (FloatSide_new (Num 0))) + 1"
    by (simp add: FloatSide_new_def)
  ultimately show ?thesis
    using rounding_side_reachable by (simp add: rounding_side_facts zero_number_def)
qed

text \<open>
  C5, amended. In every state a \<^verbatim>\<open>FloatSide\<close> reaches in double arithmetic, the block
  offsets are numbers in non-decreasing order and the four arrays \<^verbatim>\<open>blockOffsets\<close>,
  \<^verbatim>\<open>inlineSizes\<close>, \<^verbatim>\<open>inlineOffsets\<close> and \<^verbatim>\<open>floatCounts\<close> have the same length (the last
  track has no lower boundary in \<^verbatim>\<open>blockOffsets\<close>). The same holds when the sums of a
  placement are computed by any \<open>add\<close> and \<open>sub\<close> such that the sum of the shelf and a
  positive block size is a number not less than the shelf. The block offsets are in
  strictly increasing order in the states reached by placements in each of which that sum
  is greater than the shelf.
\<close>

theorem track_ordering:
  "(FloatSide_reachable_double s \<longrightarrow>
      sorted_wrt (\<le>) (blockOffsets s) \<and> NaN \<notin> set (blockOffsets s) \<and>
      length (blockOffsets s) = length (inlineSizes s) \<and>
      length (blockOffsets s) = length (inlineOffsets s) \<and>
      length (blockOffsets s) = length (floatCounts s)) \<and>
   (FloatSide_reachable_with not_below s \<longrightarrow>
      sorted_wrt (\<le>) (blockOffsets s) \<and> NaN \<notin> set (blockOffsets s) \<and>
      length (blockOffsets s) = length (inlineSizes s) \<and>
      length (blockOffsets s) = length (inlineOffsets s) \<and>
      length (blockOffsets s) = length (floatCounts s)) \<and>
   (FloatSide_reachable_with above s \<longrightarrow>
      sorted_wrt (<) (blockOffsets s) \<and> NaN \<notin> set (blockOffsets s))"
proof -
  have weak: "sorted_wrt (\<le>) (blockOffsets s) \<and> NaN \<notin> set (blockOffsets s) \<and>
      length (blockOffsets s) = length (inlineSizes s) \<and>
      length (blockOffsets s) = length (inlineOffsets s) \<and>
      length (blockOffsets s) = length (floatCounts s)"
    if "FloatSide_reachable_with not_below s"
  proof -
    from FloatSide_reachable_with_rounded [OF that]
    obtain xs where xs: "blockOffsets s = map Num xs" "sorted_wrt (\<le>) xs" and le: "lengths_equal s"
      by (auto simp: FloatSide_inv_rounded_def)
    have "sorted_wrt (\<le>) (map Num xs)" using xs(2) by (simp add: sorted_wrt_map)
    then have "sorted_wrt (\<le>) (blockOffsets s)" using xs(1) by simp
    moreover have "NaN \<notin> set (blockOffsets s)" using xs(1) by auto
    ultimately show ?thesis using le by (simp add: lengths_equal_def)
  qed
  have strict: "sorted_wrt (<) (blockOffsets s) \<and> NaN \<notin> set (blockOffsets s)"
    if "FloatSide_reachable_with above s"
  proof -
    from FloatSide_reachable_with_above [OF that]
    obtain xs where xs: "blockOffsets s = map Num xs" "sorted_wrt (<) xs"
      by (auto simp: FloatSide_inv_def)
    have "sorted_wrt (<) (map Num xs)" using xs(2) by (simp add: sorted_wrt_map)
    then have "sorted_wrt (<) (blockOffsets s)" using xs(1) by simp
    moreover have "NaN \<notin> set (blockOffsets s)" using xs(1) by auto
    ultimately show ?thesis by simp
  qed
  show ?thesis
    using weak strict FloatSide_reachable_double_shelf [of s] by blast
qed

lemma exact_side_facts:
  "blockOffsets exact_side = [Num 10, Num (10 + 1 / 2 ^ 51)]"
  "blockOffsets two_floats_side = [Num 0, Num 50, Num 100]"
  "floatCounts two_floats_side = [Num 1, Num 1, Num 0]"
  "representable 0" "representable 50"
  by code_simp+

lemma two_floats_side_reachable:
  "FloatSide_reachable_double two_floats_side" "FloatSide_reachable_with above two_floats_side"
proof -
  show "FloatSide_reachable_double two_floats_side"
    unfolding two_floats_side_def two_floats_first_def
    by (intro double_placeFloat double_boxStart double_new exact_side_facts)
  have a: "above double_add (shelfBlockOffset (FloatSide_new (Num 0)))
        (placeFloat_blockSize_with double_add (example_float FloatLeft 2) (example_heap 60 50))"
    by code_simp
  have b: "above double_add (shelfBlockOffset (FloatSide_boxStart (Num 50) two_floats_first))
        (placeFloat_blockSize_with double_add (example_float FloatLeft 3) (example_heap 60 50))"
    by code_simp
  have "FloatSide_reachable_with above two_floats_first"
    unfolding two_floats_first_def using a by (intro with_placeFloat with_new)
  then have "FloatSide_reachable_with above (FloatSide_boxStart (Num 50) two_floats_first)"
    by (rule with_boxStart)
  then show "FloatSide_reachable_with above two_floats_side"
    unfolding two_floats_side_def using b by (intro with_placeFloat)
qed

theorem track_ordering_witness:
  "FloatSide_reachable_double rounding_side \<and>
   sorted_wrt (\<le>) (blockOffsets rounding_side) \<and> blockOffsets rounding_side = [Num 10, Num 10] \<and>
   length (blockOffsets rounding_side) = length (floatCounts rounding_side) \<and>
   FloatSide_reachable_double two_floats_side \<and> FloatSide_reachable_with above two_floats_side \<and>
   sorted_wrt (<) (blockOffsets two_floats_side) \<and>
   blockOffsets two_floats_side = [Num 0, Num 50, Num 100] \<and>
   length (blockOffsets two_floats_side) = length (floatCounts two_floats_side) \<and>
   FloatSide_reachable_with above exact_side \<and>
   FloatSide_reachable_with not_below exact_side \<and>
   sorted_wrt (<) (blockOffsets exact_side) \<and>
   blockOffsets exact_side = [Num 10, Num (10 + 1 / 2 ^ 51)]"
proof -
  have ok: "above (+) (shelfBlockOffset (FloatSide_new (Num 10)))
          (placeFloat_blockSize_with (+) rounding_float rounding_heap)"
    "not_below (+) (shelfBlockOffset (FloatSide_new (Num 10)))
          (placeFloat_blockSize_with (+) rounding_float rounding_heap)"
    by code_simp+
  have "FloatSide_reachable_with above exact_side"
    unfolding exact_side_def using ok(1) by (intro with_placeFloat with_new)
  moreover have "FloatSide_reachable_with not_below exact_side"
    unfolding exact_side_def using ok(2) by (intro with_placeFloat with_new)
  ultimately have e: "FloatSide_reachable_with above exact_side"
    "FloatSide_reachable_with not_below exact_side"
    by simp_all
  from track_ordering [of rounding_side] track_ordering [of exact_side]
    track_ordering [of two_floats_side] rounding_side_reachable e two_floats_side_reachable
  show ?thesis
    by (simp add: rounding_side_facts exact_side_facts)
qed

lemma lengths_equal_splitIfShelfDropped:
  "lengths_equal s \<Longrightarrow> lengths_equal (FloatSide_splitIfShelfDropped s)"
  using lengths_equal_splitTrack [of s "shelfTrackIndex s" "shelfBlockOffset s"]
  by (simp add: FloatSide_splitIfShelfDropped_def Let_def lengths_equal_def)

text \<open>
  C10. The constructor makes the four arrays of one length; \<^verbatim>\<open>splitTrack\<close> (at any index)
  and \<^verbatim>\<open>splitIfShelfDropped\<close> keep them of one length; and \<^verbatim>\<open>placeFloat\<close>, called in any
  reachable state with any box, vacancy and heap, leaves them of one length, whether it
  returns or throws.
\<close>

theorem lengths_preserved:
  "lengths_equal (FloatSide_new b) \<and>
   (lengths_equal s \<longrightarrow>
      lengths_equal (FloatSide_splitTrack i off s) \<and> lengths_equal (FloatSide_splitIfShelfDropped s)) \<and>
   (FloatSide_reachable s \<longrightarrow>
      lengths_equal (fst (state_of (FloatSide_placeFloat box vacancy l r (s, h)))))"
proof -
  have "lengths_equal (FloatSide_new b)"
    by (simp add: lengths_equal_def FloatSide_new_def)
  moreover have "FloatSide_reachable s \<longrightarrow>
      lengths_equal (fst (state_of (FloatSide_placeFloat box vacancy l r (s, h))))"
    using FloatSide_inv_placeFloat [OF FloatSide_reachable_inv, of s box vacancy l r h]
    by (simp add: FloatSide_inv_def)
  ultimately show ?thesis
    by (simp add: lengths_equal_splitTrack lengths_equal_splitIfShelfDropped)
qed

theorem lengths_preserved_witness:
  "lengths_equal (FloatSide_new (Num 0)) \<and> FloatSide_reachable (FloatSide_new (Num 0)) \<and>
   lengths_equal (FloatSide_splitTrack 0 (Num 10) (FloatSide_new (Num 0))) \<and>
   lengths_equal (FloatSide_splitIfShelfDropped (FloatSide_new (Num 0))) \<and>
   lengths_equal (fst (state_of (FloatSide_placeFloat (example_float FloatLeft 1) example_vacancy 0 0
      (FloatSide_new (Num 0), example_heap 60 50))))"
  using lengths_preserved [of "Num 0" "FloatSide_new (Num 0)" 0 "Num 10" "example_float FloatLeft 1"
      example_vacancy 0 0 "example_heap 60 50"] reach_new [of 0]
  by simp

section \<open>The precondition of placeFloat\<close>

lemma placeFloat_position_Done:
  assumes "hasContainingBlock h box"
  shows "\<exists>h'. placeFloat_position box c cl mo h = Done h'"
proof -
  from assms obtain cb where cb: "containingBlock h (box_id box) = Some cb"
    "containingBlock h (box_id (blockContainer (areas h cb))) \<noteq> None"
    "box_id (blockContainer (areas h (borderArea h (box_id box)))) = box_id box"
    by (auto simp: hasContainingBlock_def)
  show ?thesis
    using cb
    by (auto simp: placeFloat_position_def setInlinePosition_def inlineSizeForWritingMode_def
        BlockContainer_writingMode_def split: option.splits sum.splits)
qed

text \<open>
  C8. When the block offset of the vacancy differs from the shelf, \<^verbatim>\<open>placeFloat\<close> throws
  and leaves the side and the heap as they were. When the two are equal, the float style of
  the box is not \<^verbatim>\<open>none\<close> and the containing blocks are set, it does not throw.
\<close>

theorem placeFloat_precondition:
  "(strict_ne (v_blockOffset vacancy) (shelfBlockOffset s) \<longrightarrow>
      (\<exists>e. FloatSide_placeFloat box vacancy l r (s, h) = Threw e (s, h))) \<and>
   (strict_eq (v_blockOffset vacancy) (shelfBlockOffset s) \<and> float (style box) \<noteq> FloatNone \<and>
    hasContainingBlock h box \<longrightarrow>
      \<not> threw (FloatSide_placeFloat box vacancy l r (s, h)))"
proof -
  have a: "strict_ne (v_blockOffset vacancy) (shelfBlockOffset s) \<longrightarrow>
      (\<exists>e. FloatSide_placeFloat box vacancy l r (s, h) = Threw e (s, h))"
    by (simp add: FloatSide_placeFloat_def)
  have b: "\<not> threw (FloatSide_placeFloat box vacancy l r (s, h))"
    if "strict_eq (v_blockOffset vacancy) (shelfBlockOffset s)" "float (style box) \<noteq> FloatNone"
      "hasContainingBlock h box"
  proof -
    obtain s1 st en where sp: "placeFloat_split
        (area_height (areas h (borderArea h (box_id box)))
          + m_blockStart (getMarginsAutoIsZero box) + m_blockEnd (getMarginsAutoIsZero box)) s = (s1, st, en)"
      using prod_cases3 by blast
    define c where "c = (if float (style box) = FloatLeft then v_leftOffset vacancy else v_rightOffset vacancy)"
    define cl where "cl = (if float (style box) = FloatLeft then l else r)"
    define mo where "mo = (if float (style box) = FloatLeft then m_lineLeft (getMarginsAutoIsZero box)
        else m_lineRight (getMarginsAutoIsZero box))"
    from placeFloat_position_Done [OF that(3)]
    obtain h' where "placeFloat_position box c cl mo h = Done h'" by blast
    then show ?thesis
      using that(1,2) sp
      by (simp add: FloatSide_placeFloat_def Let_def strict_ne_def c_def cl_def mo_def)
  qed
  show ?thesis using a b by blast
qed

theorem placeFloat_precondition_witness:
  "strict_ne (v_blockOffset example_vacancy) (shelfBlockOffset (FloatSide_new (Num 5))) \<and>
   (\<exists>e. FloatSide_placeFloat (example_float FloatLeft 1) example_vacancy 0 0
           (FloatSide_new (Num 5), example_heap 60 50)
         = Threw e (FloatSide_new (Num 5), example_heap 60 50)) \<and>
   strict_eq (v_blockOffset example_vacancy) (shelfBlockOffset (FloatSide_new (Num 0))) \<and>
   float (style (example_float FloatLeft 1)) \<noteq> FloatNone \<and>
   hasContainingBlock (example_heap 60 50) (example_float FloatLeft 1) \<and>
   \<not> threw (FloatSide_placeFloat (example_float FloatLeft 1) example_vacancy 0 0
              (FloatSide_new (Num 0), example_heap 60 50))"
proof -
  have a: "strict_ne (v_blockOffset example_vacancy) (shelfBlockOffset (FloatSide_new (Num 5)))"
    by (simp add: example_vacancy_def FloatSide_new_def strict_ne_def)
  have b: "strict_eq (v_blockOffset example_vacancy) (shelfBlockOffset (FloatSide_new (Num 0)))"
    by (simp add: example_vacancy_def FloatSide_new_def)
  have c: "float (style (example_float FloatLeft 1)) \<noteq> FloatNone"
    by (simp add: example_float_def)
  have d: "hasContainingBlock (example_heap 60 50) (example_float FloatLeft 1)"
    by (simp add: hasContainingBlock_def example_heap_def example_float_def example_container_def)
  from placeFloat_precondition [of example_vacancy "FloatSide_new (Num 5)" "example_float FloatLeft 1"
      0 0 "example_heap 60 50"]
    placeFloat_precondition [of example_vacancy "FloatSide_new (Num 0)" "example_float FloatLeft 1"
      0 0 "example_heap 60 50"] a b c d
  show ?thesis by blast
qed

section \<open>The shelves\<close>

lemma number_less_trans: "a < b \<Longrightarrow> b < c \<Longrightarrow> a < c" for a b c :: number
  by (cases a; cases b; cases c) auto

lemma shelf_le_refl [simp]: "shelf_le a a"
  by (simp add: shelf_le_def)

lemma shelf_le_trans: "shelf_le a b \<Longrightarrow> shelf_le b c \<Longrightarrow> shelf_le a c"
  by (auto simp: shelf_le_def dest: number_less_trans)

lemma shelves_le_refl [simp]: "shelves_le this this"
  by (simp add: shelves_le_def)

lemma shelves_le_trans: "shelves_le a b \<Longrightarrow> shelves_le b c \<Longrightarrow> shelves_le a c"
  by (auto simp: shelves_le_def intro: shelf_le_trans)

lemma shelves_le_misfits [simp]: "shelves_le this (this'\<lparr>misfits := m\<rparr>) = shelves_le this this'"
  by (simp add: shelves_le_def)

lemma shelf_dropShelf: "shelf_le (shelfBlockOffset s) (shelfBlockOffset (FloatSide_dropShelf b s))"
  by (simp add: FloatSide_dropShelf_def Let_def shelf_le_def)

lemma shelf_splitTrack [simp]: "shelfBlockOffset (FloatSide_splitTrack i off s) = shelfBlockOffset s"
  by (simp add: FloatSide_splitTrack_def Let_def)

lemma shelf_splitIfShelfDropped [simp]:
  "shelfBlockOffset (FloatSide_splitIfShelfDropped s) = shelfBlockOffset s"
  by (simp add: FloatSide_splitIfShelfDropped_def Let_def)

lemma shelf_placeFloat_split: "shelfBlockOffset (fst (placeFloat_split bSize s)) = shelfBlockOffset s"
  by (simp add: placeFloat_split_def Let_def)

lemma shelf_placeFloat_track [simp]:
  "shelfBlockOffset (placeFloat_track c mo w me t s) = shelfBlockOffset s"
  by (simp add: placeFloat_track_def Let_def)

lemma shelf_placeFloat_loop [simp]:
  "shelfBlockOffset (placeFloat_loop c mo w me en t s) = shelfBlockOffset s"
proof (induction c mo w me en t s rule: placeFloat_loop.induct)
  case (1 c mo w me en t s)
  show ?case
    using "1.IH" placeFloat_loop.simps [of c mo w me en t s] by (cases "t < en") simp_all
qed

lemma shelf_FloatSide_placeFloat:
  "shelfBlockOffset (fst (state_of (FloatSide_placeFloat box vacancy l r (s, h)))) = shelfBlockOffset s"
proof -
  obtain s1 st en where sp: "placeFloat_split
      (area_height (areas h (borderArea h (box_id box)))
        + m_blockStart (getMarginsAutoIsZero box) + m_blockEnd (getMarginsAutoIsZero box)) s = (s1, st, en)"
    using prod_cases3 by blast
  have "shelfBlockOffset s1 = shelfBlockOffset s"
    using shelf_placeFloat_split [of _ s] sp by (metis fst_conv)
  then show ?thesis
    using sp by (simp add: FloatSide_placeFloat_def Let_def split: outcome.splits)
qed

lemma shelves_le_side_update:
  "shelf_le (shelfBlockOffset (side_of fl this)) (shelfBlockOffset (f (side_of fl this))) \<Longrightarrow>
   shelves_le this (side_update fl f this)"
  by (cases "fl = FloatLeft") (simp_all add: shelves_le_def side_update_def side_of_def)

lemma shelves_le_placeFloat_clear: "shelves_le this (placeFloat_clear box this)"
proof -
  have a: "\<And>t b. shelves_le t (side_update (float (style box)) (FloatSide_dropShelf b) t)"
    by (intro shelves_le_side_update shelf_dropShelf)
  show ?thesis
    unfolding placeFloat_clear_def Let_def
    by (auto intro: a shelves_le_trans [OF a a])
qed

lemma shelves_le_placeFloat_fit:
  "shelves_le this (fst (state_of (placeFloat_fit bfc box vacancy (this, h))))"
proof -
  have a: "shelves_le this (side_update (float (style box)) (\<lambda>_. s) this)"
    if "shelfBlockOffset s = shelfBlockOffset (side_of (float (style box)) this)" for s
    using that by (intro shelves_le_side_update) simp
  have b: "shelfBlockOffset s = shelfBlockOffset (side_of (float (style box)) this)"
    if "FloatSide_placeFloat box vacancy l r (side_of (float (style box)) this, h') = Done (s, h'')
        \<or> FloatSide_placeFloat box vacancy l r (side_of (float (style box)) this, h') = Threw e (s, h'')"
    for s l r h' h'' e
    using shelf_FloatSide_placeFloat [of box vacancy l r "side_of (float (style box)) this" h'] that
    by auto
  show ?thesis
    unfolding placeFloat_fit_def Let_def
    by (auto split: outcome.splits intro!: a b)
qed

lemma shelves_le_placeFloat_misfit:
  "shelves_le this (fst (state_of (placeFloat_misfit box vacancy outer (this, h))))"
  unfolding placeFloat_misfit_def Let_def
  by (auto intro!: shelves_le_side_update shelf_dropShelf)

lemma shelves_le_FloatContext_placeFloat:
  "shelves_le this (fst (state_of (FloatContext_placeFloat bfc lw le box (this, h))))"
  unfolding FloatContext_placeFloat_def Let_def
  using shelves_le_trans [OF shelves_le_placeFloat_clear shelves_le_placeFloat_fit]
    shelves_le_trans [OF shelves_le_placeFloat_clear shelves_le_placeFloat_misfit]
  by simp

lemma shelves_le_consumeMisfits_each:
  "shelves_le (fst st) (fst (state_of (consumeMisfits_each bfc boxes st)))"
proof (induction boxes arbitrary: st)
  case Nil
  show ?case by simp
next
  case (Cons box boxes)
  obtain this h where st: "st = (this, h)" by (cases st)
  note a = shelves_le_FloatContext_placeFloat [of this bfc 0 True box h]
  show ?case
  proof (cases "FloatContext_placeFloat bfc 0 True box (this, h)")
    case (Done st')
    then show ?thesis
      using a Cons.IH [of st'] st by (auto intro: shelves_le_trans)
  next
    case (Threw e st')
    then show ?thesis using a st by simp
  qed
qed

lemma shelves_le_consumeMisfits:
  assumes "FloatContext_consumeMisfits bfc st = Some r"
  shows "shelves_le (fst st) (fst (state_of r))"
proof (rule FloatContext_consumeMisfits.raw_induct
    [where P = "\<lambda>bfc st r. shelves_le (fst st) (fst (state_of r))", OF _ assms])
  fix f :: "BlockFormattingContext \<Rightarrow> FloatContext \<times> Heap \<Rightarrow> (FloatContext \<times> Heap) outcome option"
    and bfc st r
  assume IH: "\<And>b st y. f b st = Some y \<Longrightarrow> shelves_le (fst st) (fst (state_of y))"
  assume prem: "(if length (misfits (fst st)) \<noteq> 0
      then case consumeMisfits_each bfc (misfits (fst st)) ((fst st)\<lparr>misfits := []\<rparr>, snd st) of
             Done st \<Rightarrow> f bfc st
           | Threw e st \<Rightarrow> Some (Threw e st)
      else Some (Done st)) = Some r"
  show "shelves_le (fst st) (fst (state_of r))"
  proof (cases "length (misfits (fst st)) \<noteq> 0")
    case False
    then show ?thesis using prem by auto
  next
    case True
    note a = shelves_le_consumeMisfits_each [of "((fst st)\<lparr>misfits := []\<rparr>, snd st)" bfc "misfits (fst st)"]
    show ?thesis
    proof (cases "consumeMisfits_each bfc (misfits (fst st)) ((fst st)\<lparr>misfits := []\<rparr>, snd st)")
      case (Done st')
      then have "f bfc st' = Some r" using prem True by simp
      from IH [OF this] a Done show ?thesis
        by (auto simp: shelves_le_def intro: shelf_le_trans)
    next
      case (Threw e st')
      then have "r = Threw e st'" using prem True by simp
      then show ?thesis using a Threw by (simp add: shelves_le_def)
    qed
  qed
qed

lemma shelves_le_FloatContext_dropShelf: "shelves_le this (FloatContext_dropShelf b this)"
  by (simp add: FloatContext_dropShelf_def Let_def shelves_le_def shelf_dropShelf)

lemma shelves_le_postLine:
  "FloatContext_postLine bfc lbo lh db (this, h) = Some r \<Longrightarrow> shelves_le this (fst (state_of r))"
  unfolding FloatContext_postLine_def Let_def
  using shelves_le_FloatContext_dropShelf [of this "cbBlockStart bfc + lbo + lh"]
  by (auto dest!: shelves_le_consumeMisfits intro: shelves_le_trans split: if_splits)

lemma example_bfc_fields:
  "cbBlockStart example_bfc = Num 0" "cbLineLeft example_bfc = Num 0" "cbLineRight example_bfc = Num 0"
  "bfc_inlineSize example_bfc = Num 100"
  by (simp_all add: example_bfc_def BlockFormattingContext_new_def zero_number_def)


text \<open>
  C3, as the source has it. After the shelves were dropped to 20, a box start with the block
  cursor at 0 sets both shelves back to 0.
\<close>

theorem shelf_boxStart_counterexample:
  "shelfBlockOffset (leftFloats (FloatContext_dropShelf (Num 20) (FloatContext_new (Num 0)))) = Num 20 \<and>
   shelfBlockOffset (leftFloats (FloatContext_boxStart example_bfc
      (FloatContext_dropShelf (Num 20) (FloatContext_new (Num 0))))) = Num 0 \<and>
   Num 0 < Num 20"
  by (simp add: FloatContext_dropShelf_def FloatContext_boxStart_def FloatContext_new_def
      FloatSide_dropShelf_def FloatSide_boxStart_def FloatSide_new_def Let_def example_bfc_fields)

text \<open>
  C3, amended. Every operation on the floats other than \<^verbatim>\<open>boxStart\<close> leaves each shelf where
  it is or moves it to a greater block offset: \<^verbatim>\<open>dropShelf\<close> on a side and on the context,
  a placement on a side (which never moves the shelf), \<^verbatim>\<open>placeFloat\<close> on the context,
  and \<^verbatim>\<open>consumeMisfits\<close> and \<^verbatim>\<open>postLine\<close> whenever they return. \<^verbatim>\<open>boxStart\<close> sets both
  shelves to the block cursor of the formatting context, wherever they were.
\<close>

theorem shelves_monotone:
  "shelf_le (shelfBlockOffset s) (shelfBlockOffset (FloatSide_dropShelf b s)) \<and>
   shelfBlockOffset (fst (state_of (FloatSide_placeFloat box vacancy l r (s, h)))) = shelfBlockOffset s \<and>
   shelves_le this (FloatContext_dropShelf b this) \<and>
   shelves_le this (fst (state_of (FloatContext_placeFloat bfc lineWidth lineIsEmpty box (this, h)))) \<and>
   (FloatContext_consumeMisfits bfc (this, h) = Some res \<longrightarrow> shelves_le this (fst (state_of res))) \<and>
   (FloatContext_postLine bfc lineBlockOffset lineHeight didBreak (this, h) = Some res' \<longrightarrow>
      shelves_le this (fst (state_of res'))) \<and>
   shelfBlockOffset (leftFloats (FloatContext_boxStart bfc this)) = cbBlockStart bfc \<and>
   shelfBlockOffset (rightFloats (FloatContext_boxStart bfc this)) = cbBlockStart bfc"
proof -
  have a: "FloatContext_consumeMisfits bfc (this, h) = Some res \<longrightarrow> shelves_le this (fst (state_of res))"
    using shelves_le_consumeMisfits [of bfc "(this, h)" res] by simp
  have b: "FloatContext_postLine bfc lineBlockOffset lineHeight didBreak (this, h) = Some res' \<longrightarrow>
      shelves_le this (fst (state_of res'))"
    using shelves_le_postLine by blast
  have c: "shelfBlockOffset (leftFloats (FloatContext_boxStart bfc this)) = cbBlockStart bfc \<and>
      shelfBlockOffset (rightFloats (FloatContext_boxStart bfc this)) = cbBlockStart bfc"
    by (simp add: FloatContext_boxStart_def FloatSide_boxStart_def Let_def)
  show ?thesis
    using a b c shelf_dropShelf shelf_FloatSide_placeFloat shelves_le_FloatContext_dropShelf
      shelves_le_FloatContext_placeFloat
    by simp
qed

theorem shelves_monotone_witness:
  "FloatContext_consumeMisfits example_bfc (FloatContext_new (Num 0), example_heap 60 50) =
     Some (Done (FloatContext_new (Num 0), example_heap 60 50)) \<and>
   FloatContext_postLine example_bfc (Num 0) (Num 20) True (FloatContext_new (Num 0), example_heap 60 50) =
     Some (Done (FloatContext_dropShelf (Num 20) (FloatContext_new (Num 0)), example_heap 60 50)) \<and>
   shelves_le (FloatContext_new (Num 0)) (FloatContext_dropShelf (Num 20) (FloatContext_new (Num 0)))"
proof -
  have m: "misfits (FloatContext_new (Num 0)) = []"
    "misfits (FloatContext_dropShelf (Num 20) (FloatContext_new (Num 0))) = []"
    by (simp_all add: FloatContext_new_def FloatContext_dropShelf_def Let_def)
  have a: "FloatContext_consumeMisfits example_bfc (FloatContext_new (Num 0), example_heap 60 50) =
     Some (Done (FloatContext_new (Num 0), example_heap 60 50))"
    by (simp add: FloatContext_consumeMisfits.simps m)
  have b: "FloatContext_postLine example_bfc (Num 0) (Num 20) True
       (FloatContext_new (Num 0), example_heap 60 50) =
     Some (Done (FloatContext_dropShelf (Num 20) (FloatContext_new (Num 0)), example_heap 60 50))"
    by (simp add: FloatContext_postLine_def FloatContext_consumeMisfits.simps m example_bfc_fields)
  from shelves_monotone [where this = "FloatContext_new (Num 0)" and bfc = example_bfc
      and h = "example_heap 60 50" and lineBlockOffset = "Num 0" and lineHeight = "Num 20"
      and didBreak = True
      and res' = "Done (FloatContext_dropShelf (Num 20) (FloatContext_new (Num 0)), example_heap 60 50)"]
    a b
  show ?thesis by simp
qed

section \<open>Misfits\<close>

lemma side_above:
  "FloatSide_boxStart (Num 0) (FloatSide_new (Num 50)) =
   \<lparr>items = [], shelfBlockOffset = Num 0, shelfTrackIndex = - 1, blockOffsets = [Num 50],
    inlineSizes = [Num 0], inlineOffsets = [Num 0], floatCounts = [Num 0]\<rparr>"
  by code_simp

lemma fctx_above:
  "example_fctx_above =
   \<lparr>leftFloats = \<lparr>items = [], shelfBlockOffset = Num 0, shelfTrackIndex = - 1, blockOffsets = [Num 50],
      inlineSizes = [Num 0], inlineOffsets = [Num 0], floatCounts = [Num 0]\<rparr>,
    rightFloats = \<lparr>items = [], shelfBlockOffset = Num 0, shelfTrackIndex = - 1, blockOffsets = [Num 50],
      inlineSizes = [Num 0], inlineOffsets = [Num 0], floatCounts = [Num 0]\<rparr>,
    misfits = []\<rparr>"
  by (simp add: example_fctx_above_def FloatContext_boxStart_def FloatContext_new_def Let_def
      example_bfc_fields side_above)

lemma vacancy_above:
  "FloatContext_getVacancyForBox example_bfc example_fctx_above (example_float FloatLeft 2)
     (example_heap 200 10) =
   \<lparr>v_leftOffset = Num 0, v_rightOffset = Num 0, v_inlineSize = Num 100, v_blockOffset = Num 0,
    v_leftFloatCount = NaN, v_rightFloatCount = NaN\<rparr>"
  by code_simp

lemma clear_above:
  "placeFloat_clear (example_float FloatLeft 2) fc = fc"
  by (simp add: placeFloat_clear_def example_float_def example_style_def)

lemma float_facts:
  "float (style (example_float FloatLeft 2)) = FloatLeft"
  "area_width (areas (example_heap 200 10) (borderArea (example_heap 200 10) (box_id (example_float FloatLeft 2)))) = Num 200"
  "m_lineLeft (getMarginsAutoIsZero (example_float FloatLeft 2)) = Num 0"
  "m_lineRight (getMarginsAutoIsZero (example_float FloatLeft 2)) = Num 0"
  by (simp_all add: example_float_def example_style_def example_heap_def area_width_def
      getMarginsAutoIsZero_def autoIsZero_def zero_number_def)

lemma stuck_step:
  "FloatContext_placeFloat example_bfc 0 True (example_float FloatLeft 2)
     (example_fctx_above, example_heap 200 10)
   = Done (example_fctx_above\<lparr>misfits := [example_float FloatLeft 2]\<rparr>, example_heap 200 10)"
proof -
  have m: "misfits example_fctx_above = []" by (simp add: fctx_above)
  show ?thesis
    unfolding FloatContext_placeFloat_def Let_def fst_conv snd_conv clear_above vacancy_above float_facts
    by (simp add: m placeFloat_misfit_def zero_number_def float_facts Let_def)
qed


lemma stuck_forever:
  "FloatContext_consumeMisfits example_bfc
     (example_fctx_above\<lparr>misfits := [example_float FloatLeft 2]\<rparr>, example_heap 200 10) = None"
proof (rule ccontr)
  assume "FloatContext_consumeMisfits example_bfc
     (example_fctx_above\<lparr>misfits := [example_float FloatLeft 2]\<rparr>, example_heap 200 10) \<noteq> None"
  then obtain r where r: "FloatContext_consumeMisfits example_bfc
     (example_fctx_above\<lparr>misfits := [example_float FloatLeft 2]\<rparr>, example_heap 200 10) = Some r"
    by blast
  have m: "example_fctx_above\<lparr>misfits := []\<rparr> = example_fctx_above" by (simp add: fctx_above)
  have "example_bfc = example_bfc \<and>
        (example_fctx_above\<lparr>misfits := [example_float FloatLeft 2]\<rparr>, example_heap 200 10) =
        (example_fctx_above\<lparr>misfits := [example_float FloatLeft 2]\<rparr>, example_heap 200 10)
        \<longrightarrow> False"
  proof (rule FloatContext_consumeMisfits.raw_induct
      [where P = "\<lambda>bfc st r. bfc = example_bfc \<and>
          st = (example_fctx_above\<lparr>misfits := [example_float FloatLeft 2]\<rparr>, example_heap 200 10)
          \<longrightarrow> False", OF _ r])
    fix f :: "BlockFormattingContext \<Rightarrow> FloatContext \<times> Heap \<Rightarrow> (FloatContext \<times> Heap) outcome option"
      and bfc st y
    assume IH: "\<And>b st y. f b st = Some y \<Longrightarrow> b = example_bfc \<and>
          st = (example_fctx_above\<lparr>misfits := [example_float FloatLeft 2]\<rparr>, example_heap 200 10)
          \<longrightarrow> False"
    assume prem: "(if length (misfits (fst st)) \<noteq> 0
      then case consumeMisfits_each bfc (misfits (fst st)) ((fst st)\<lparr>misfits := []\<rparr>, snd st) of
             Done st \<Rightarrow> f bfc st
           | Threw e st \<Rightarrow> Some (Threw e st)
      else Some (Done st)) = Some y"
    show "bfc = example_bfc \<and>
          st = (example_fctx_above\<lparr>misfits := [example_float FloatLeft 2]\<rparr>, example_heap 200 10)
          \<longrightarrow> False"
    proof
      assume a: "bfc = example_bfc \<and>
          st = (example_fctx_above\<lparr>misfits := [example_float FloatLeft 2]\<rparr>, example_heap 200 10)"
      then have "f example_bfc
          (example_fctx_above\<lparr>misfits := [example_float FloatLeft 2]\<rparr>, example_heap 200 10) = Some y"
        using prem by (simp add: m stuck_step)
      from IH [OF this] show False by simp
    qed
  qed
  then show False by simp
qed

text \<open>
  C4. A float context is created at block offset 50; a box start with the block cursor at 0
  moves both shelves above the first track, so that \<open>shelfTrackIndex\<close> is \<open>-1\<close>. A left float
  200 wide does not fit the context, which is 100 wide; the float counts of its vacancy are
  \<open>NaN\<close>, the shelf is not moved and the float is queued. \<^verbatim>\<open>consumeMisfits\<close> then retries
  it in the same state for ever: it does not return.
\<close>

theorem consumeMisfits_diverges:
  "FloatContext_placeFloat example_bfc 0 True (example_float FloatLeft 2)
     (example_fctx_above, example_heap 200 10)
   = Done (example_fctx_above\<lparr>misfits := [example_float FloatLeft 2]\<rparr>, example_heap 200 10) \<and>
   FloatContext_consumeMisfits example_bfc
     (example_fctx_above\<lparr>misfits := [example_float FloatLeft 2]\<rparr>, example_heap 200 10) = None"
  using stuck_step stuck_forever by simp

section \<open>Float counts and inline sizes\<close>

lemma splice_insert_nth:
  fixes k :: int
  assumes "j \<le> length a"
  defines "p \<equiv> nat (if k < 0 then max (int (length a) + k) 0 else min k (int (length a)))"
  shows "splice_insert a k v ! j = (if j < p then a ! j else if j = p then v else a ! (j - 1))"
proof -
  have p: "p \<le> length a" by (auto simp: p_def)
  have "splice_insert a k v = take p a @ v # drop p a"
    by (simp add: splice_insert_def Let_def p_def)
  then show ?thesis using nth_insert_at [OF p assms(1)] by simp
qed

lemma splitTrack_nth:
  fixes k :: int
  assumes n: "length (inlineSizes s) = n" "length (inlineOffsets s) = n" "length (floatCounts s) = n"
    and j: "j \<le> n"
  defines "p \<equiv> nat (if k < 0 then max (int n + k) 0 else min k (int n))"
  shows "inlineSizes (FloatSide_splitTrack k v s) ! j =
           (if j < p then inlineSizes s ! j else if j = p then nth_js (inlineSizes s) k
            else inlineSizes s ! (j - 1))"
    and "inlineOffsets (FloatSide_splitTrack k v s) ! j =
           (if j < p then inlineOffsets s ! j else if j = p then nth_js (inlineOffsets s) k
            else inlineOffsets s ! (j - 1))"
    and "floatCounts (FloatSide_splitTrack k v s) ! j =
           (if j < p then floatCounts s ! j else if j = p then nth_js (floatCounts s) k
            else floatCounts s ! (j - 1))"
  using splice_insert_nth [of j "inlineSizes s" k "nth_js (inlineSizes s) k"]
    splice_insert_nth [of j "inlineOffsets s" k "nth_js (inlineOffsets s) k"]
    splice_insert_nth [of j "floatCounts s" k "nth_js (floatCounts s) k"] j
  unfolding n p_def
  by (simp_all add: FloatSide_splitTrack_def Let_def split del: if_split)

lemma tracks_all_splitTrack:
  assumes le: "lengths_equal s" and nan: "P NaN NaN NaN" and all: "tracks_all P s"
  shows "tracks_all P (FloatSide_splitTrack k v s)"
proof -
  define n where "n = length (floatCounts s)"
  have n: "length (inlineSizes s) = n" "length (inlineOffsets s) = n" "length (floatCounts s) = n"
    using le by (simp_all add: lengths_equal_def n_def)
  define p where "p = nat (if k < 0 then max (int n + k) 0 else min k (int n))"
  have ins: "P (nth_js (inlineSizes s) k) (nth_js (inlineOffsets s) k) (nth_js (floatCounts s) k)"
  proof (cases "0 \<le> k \<and> k < int n")
    case True
    then have "nat k < length (floatCounts s)" using n by auto
    then show ?thesis using all True n by (simp add: tracks_all_def nth_js_def)
  next
    case False
    then show ?thesis using nan n by (auto simp: nth_js_def)
  qed
  have old: "\<And>i. i < n \<Longrightarrow> P (inlineSizes s ! i) (inlineOffsets s ! i) (floatCounts s ! i)"
    using all n by (simp add: tracks_all_def)
  have pn: "p \<le> n" by (auto simp: p_def)
  show ?thesis
    unfolding tracks_all_def
  proof (intro allI impI)
    fix j assume "j < length (floatCounts (FloatSide_splitTrack k v s))"
    then have j: "j \<le> n" using n by (simp add: FloatSide_splitTrack_def Let_def)
    note nth = splitTrack_nth [OF n j, of k v, folded p_def]
    consider (lt) "j < p" | (eq) "j = p" | (gt) "p < j" by linarith
    then show "P (inlineSizes (FloatSide_splitTrack k v s) ! j)
        (inlineOffsets (FloatSide_splitTrack k v s) ! j) (floatCounts (FloatSide_splitTrack k v s) ! j)"
    proof cases
      case lt
      then have "j < n" using pn by simp
      then show ?thesis using lt old [of j] by (simp add: nth)
    next
      case eq
      have "P (inlineSizes (FloatSide_splitTrack k v s) ! j)
        (inlineOffsets (FloatSide_splitTrack k v s) ! j) (floatCounts (FloatSide_splitTrack k v s) ! j)"
        unfolding nth using eq ins by simp
      then show ?thesis .
    next
      case gt
      then have "j - 1 < n" using j by simp
      then show ?thesis using gt old [of "j - 1"] by (simp add: nth)
    qed
  qed
qed

lemma tracks_all_index [simp]: "tracks_all P (s\<lparr>shelfTrackIndex := i\<rparr>) = tracks_all P s"
  by (simp add: tracks_all_def)

lemma tracks_all_placeFloat_split_with:
  assumes le: "lengths_equal s" and nan: "P NaN NaN NaN" and all: "tracks_all P s"
  shows "tracks_all P (fst (placeFloat_split_with add bSize s))"
proof -
  have a: "tracks_all P (FloatSide_splitIfShelfDropped s)"
    using tracks_all_splitTrack [OF le nan all] all
    by (simp add: FloatSide_splitIfShelfDropped_def Let_def)
  have b: "lengths_equal (FloatSide_splitIfShelfDropped s)"
    using le by (rule lengths_equal_splitIfShelfDropped)
  show ?thesis
    using a tracks_all_splitTrack [OF b nan a]
    by (simp add: placeFloat_split_with_def Let_def)
qed

lemma placeFloat_track_with_arrays:
  assumes "lengths_equal s" and "0 \<le> t" and "t < int (length (blockOffsets s))"
  shows "floatCounts (placeFloat_track_with add c mo w me t s) =
           (floatCounts s)[nat t := add (floatCounts s ! nat t) 1]"
    and "inlineSizes (placeFloat_track_with add c mo w me t s) =
           (inlineSizes s)[nat t := (if strict_eq (floatCounts s ! nat t) 0 then add (add mo w) me
                                     else add (add (add (add (inlineOffsets s ! nat t) c) mo) w) me)]"
    and "inlineOffsets (placeFloat_track_with add c mo w me t s) =
           (if strict_eq (floatCounts s ! nat t) 0 then (inlineOffsets s)[nat t := - c]
            else inlineOffsets s)"
  using assms
  by (simp_all add: placeFloat_track_with_def Let_def set_js_in_range nth_js_def lengths_equal_def)

text \<open>
  The sum that \<^verbatim>\<open>placeFloat\<close> writes on a track that holds floats is positive when the
  float is placed at or after their edge: each rounded sum is at least the sum without the
  distance from the recorded offset.
\<close>

lemma double_clear_sum:
  assumes edge: "sz - off \<le> c" and sz: "0 < sz" and mo: "representable_number mo"
    and wide: "0 < double_add (double_add mo w) me"
  shows "0 < double_add (double_add (double_add (double_add off c) mo) w) me"
proof -
  obtain m where m: "mo = Num m" "representable m"
    using mo by (cases mo) (auto simp: representable_number_def)
  obtain w' e' where we: "w = Num w'" "me = Num e'"
    using wide m by (cases w; cases me) (auto simp: zero_number_def)
  obtain z o' c' where n: "sz = Num z" "off = Num o'" "c = Num c'"
    using edge by (cases sz; cases off; cases c) auto
  have z: "0 < z" "z - o' \<le> c'" using sz edge n by (simp_all add: zero_number_def)
  have "round_double 0 \<le> round_double (o' + c')"
    using z by (intro round_double_mono) simp
  then have d: "0 \<le> round_double (o' + c')" by (simp add: round_double_def)
  have "round_double m \<le> round_double (round_double (o' + c') + m)"
    using d by (intro round_double_mono) simp
  then have "m \<le> round_double (round_double (o' + c') + m)"
    using m(2) by (simp add: representable_def)
  then have "round_double (m + w') \<le> round_double (round_double (round_double (o' + c') + m) + w')"
    by (intro round_double_mono) simp
  then have "round_double (round_double (m + w') + e') \<le>
      round_double (round_double (round_double (round_double (o' + c') + m) + w') + e')"
    by (intro round_double_mono) simp
  moreover have "0 < round_double (round_double (m + w') + e')"
    using wide m we by (simp add: zero_number_def)
  ultimately show ?thesis using m we n by (simp add: zero_number_def)
qed

lemma double_count_step:
  "cnt = NaN \<or> 0 \<le> cnt \<Longrightarrow> double_add cnt 1 = NaN \<or> 0 \<le> double_add cnt 1"
proof (cases cnt)
  case NaN
  then show ?thesis by simp
next
  case (Num k)
  assume "cnt = NaN \<or> 0 \<le> cnt"
  then have "0 \<le> k" using Num by (simp add: zero_number_def)
  then have "round_double 0 \<le> round_double (k + 1)" by (intro round_double_mono) simp
  then show ?thesis using Num by (simp add: zero_number_def one_number_def round_double_def)
qed

lemma double_count_positive:
  "cnt = NaN \<or> 0 \<le> cnt \<Longrightarrow> \<not> strict_eq cnt 0 \<Longrightarrow> 0 < double_add cnt 1 \<Longrightarrow> 0 < cnt"
  by (cases cnt) (auto simp: zero_number_def one_number_def)

lemma placeFloat_loop_clear:
  assumes "lengths_equal s" and "0 \<le> t" and "en \<le> int (length (blockOffsets s))"
    and "tracks_all (\<lambda>sz off cnt. (cnt = NaN \<or> 0 \<le> cnt) \<and> (0 < cnt \<longrightarrow> 0 < sz)) s"
    and "\<forall>i. nat t \<le> i \<and> int i < en \<longrightarrow>
           0 < floatCounts s ! i \<longrightarrow> inlineSizes s ! i - inlineOffsets s ! i \<le> c"
    and "representable_number mo"
    and "0 < double_add (double_add mo w) me"
  shows "tracks_all (\<lambda>sz off cnt. (cnt = NaN \<or> 0 \<le> cnt) \<and> (0 < cnt \<longrightarrow> 0 < sz))
           (placeFloat_loop_with double_add c mo w me en t s)"
  using assms
proof (induction double_add c mo w me en t s rule: placeFloat_loop_with.induct)
  case (1 c mo w me en t s)
  note sm = placeFloat_loop_with.simps [of double_add c mo w me en t s]
  show ?case
  proof (cases "t < en")
    case False
    then show ?thesis using sm "1.prems" by simp
  next
    case True
    define s' where "s' = placeFloat_track_with double_add c mo w me t s"
    have r: "t < int (length (blockOffsets s))" using True "1.prems" by simp
    note f = placeFloat_track_with_frame [OF "1.prems"(1,2) r, of double_add c mo w me, folded s'_def]
    note arr = placeFloat_track_with_arrays [OF "1.prems"(1,2) r, of double_add c mo w me, folded s'_def]
    define k where "k = nat t"
    have n: "length (floatCounts s) = length (blockOffsets s)"
      "length (inlineSizes s) = length (blockOffsets s)"
      "length (inlineOffsets s) = length (blockOffsets s)"
      using "1.prems"(1) by (simp_all add: lengths_equal_def)
    have k: "k < length (blockOffsets s)" using r "1.prems"(2) by (simp add: k_def)
    have ken: "int k < en" using True "1.prems"(2) by (simp add: k_def)
    have Jk: "(floatCounts s ! k = NaN \<or> 0 \<le> floatCounts s ! k) \<and>
              (0 < floatCounts s ! k \<longrightarrow> 0 < inlineSizes s ! k)"
      using "1.prems"(4) k n by (simp add: tracks_all_def)
    have Qk: "0 < floatCounts s ! k \<longrightarrow> inlineSizes s ! k - inlineOffsets s ! k \<le> c"
      using "1.prems"(5) ken by (simp add: k_def)
    have J': "tracks_all (\<lambda>sz off cnt. (cnt = NaN \<or> 0 \<le> cnt) \<and> (0 < cnt \<longrightarrow> 0 < sz)) s'"
      unfolding tracks_all_def
    proof (intro allI impI)
      fix i assume "i < length (floatCounts s')"
      then have i: "i < length (blockOffsets s)" using arr(1) n by simp
      show "(floatCounts s' ! i = NaN \<or> 0 \<le> floatCounts s' ! i) \<and>
            (0 < floatCounts s' ! i \<longrightarrow> 0 < inlineSizes s' ! i)"
      proof (cases "i = k")
        case False
        then show ?thesis
          using "1.prems"(4) i n by (simp add: arr tracks_all_def k_def [symmetric])
      next
        case ik: True
        have c1: "floatCounts s' ! k = double_add (floatCounts s ! k) 1"
          using k n by (simp add: arr k_def [symmetric])
        have c2: "inlineSizes s' ! k =
            (if strict_eq (floatCounts s ! k) 0 then double_add (double_add mo w) me
             else double_add (double_add (double_add (double_add (inlineOffsets s ! k) c) mo) w) me)"
          using k n by (simp add: arr k_def [symmetric])
        show ?thesis
        proof (cases "strict_eq (floatCounts s ! k) 0")
          case True
          then show ?thesis
            using ik c1 c2 Jk "1.prems"(7) double_count_step [of "floatCounts s ! k"] by simp
        next
          case False
          have "0 < double_add (floatCounts s ! k) 1 \<longrightarrow>
                0 < double_add (double_add (double_add (double_add (inlineOffsets s ! k) c) mo) w) me"
          proof
            assume "0 < double_add (floatCounts s ! k) 1"
            then have p: "0 < floatCounts s ! k"
              using double_count_positive [of "floatCounts s ! k"] Jk False by blast
            then have "inlineSizes s ! k - inlineOffsets s ! k \<le> c" "0 < inlineSizes s ! k"
              using Jk Qk by simp_all
            then show "0 < double_add (double_add (double_add (double_add (inlineOffsets s ! k) c) mo) w) me"
              using "1.prems"(6,7) by (rule double_clear_sum)
          qed
          then show ?thesis
            using ik c1 c2 Jk False double_count_step [of "floatCounts s ! k"] by simp
        qed
      qed
    qed
    have Q': "\<forall>i. nat (t + 1) \<le> i \<and> int i < en \<longrightarrow>
           0 < floatCounts s' ! i \<longrightarrow> inlineSizes s' ! i - inlineOffsets s' ! i \<le> c"
    proof (intro allI impI)
      fix i assume a: "nat (t + 1) \<le> i \<and> int i < en" and b: "0 < floatCounts s' ! i"
      have i: "i \<noteq> k" "nat t \<le> i"
        using a "1.prems"(2) by (auto simp: k_def)
      have il: "i < length (blockOffsets s)" using a "1.prems"(3) by simp
      have "floatCounts s' ! i = floatCounts s ! i" "inlineOffsets s' ! i = inlineOffsets s ! i"
        "inlineSizes s' ! i = inlineSizes s ! i"
        using i il n by (simp_all add: arr k_def [symmetric])
      then show "inlineSizes s' ! i - inlineOffsets s' ! i \<le> c"
        using "1.prems"(5) i a b by simp
    qed
    have "0 \<le> t + 1" using "1.prems"(2) by simp
    moreover have "en \<le> int (length (blockOffsets s'))" using f(1) "1.prems"(3) by simp
    ultimately have "tracks_all (\<lambda>sz off cnt. (cnt = NaN \<or> 0 \<le> cnt) \<and> (0 < cnt \<longrightarrow> 0 < sz))
           (placeFloat_loop_with double_add c mo w me en (t + 1) s')"
      using "1.hyps" [OF True, folded s'_def] f(4) J' Q' "1.prems"(6,7) by blast
    then show ?thesis using sm True by (simp add: s'_def)
  qed
qed

lemma placeFloat_position_with_width:
  "placeFloat_position_with add sub box c cl mo h = Done h' \<Longrightarrow>
   area_width (areas h' (borderArea h' (box_id box))) = area_width (areas h (borderArea h (box_id box)))"
  by (auto simp: placeFloat_position_with_def setInlinePosition_def area_width_def
      split: if_splits option.splits sum.splits)

lemma tracks_all_items [simp]: "tracks_all P (s\<lparr>items := xs\<rparr>) = tracks_all P s"
  by (simp add: tracks_all_def)

lemma tracks_all_shelf [simp]: "tracks_all P (s\<lparr>shelfBlockOffset := b\<rparr>) = tracks_all P s"
  by (simp add: tracks_all_def)

lemma tracks_all_boxStart [simp]: "tracks_all P (FloatSide_boxStart b s) = tracks_all P s"
  by (simp add: FloatSide_boxStart_def Let_def)

lemma tracks_all_dropShelf [simp]: "tracks_all P (FloatSide_dropShelf b s) = tracks_all P s"
  by (simp add: FloatSide_dropShelf_def Let_def)

lemma placeFloat_clear:
  assumes inv: "FloatSide_inv_rounded s"
    and shelf: "shelfBlockOffset s = Num b" "representable b"
    and J: "tracks_all (\<lambda>sz off cnt. (cnt = NaN \<or> 0 \<le> cnt) \<and> (0 < cnt \<longrightarrow> 0 < sz)) s"
    and pc: "placement_clear box vacancy h s"
  shows "tracks_all (\<lambda>sz off cnt. (cnt = NaN \<or> 0 \<le> cnt) \<and> (0 < cnt \<longrightarrow> 0 < sz))
           (fst (state_of (FloatSide_placeFloat_with double_add double_sub box vacancy l r (s, h))))"
proof -
  define bSize where "bSize = placeFloat_blockSize_with double_add box h"
  define c where "c = (if float (style box) = FloatLeft then v_leftOffset vacancy else v_rightOffset vacancy)"
  define cl where "cl = (if float (style box) = FloatLeft then l else r)"
  define mo where "mo = (if float (style box) = FloatLeft then m_lineLeft (getMarginsAutoIsZero box)
      else m_lineRight (getMarginsAutoIsZero box))"
  define me where "me = (if float (style box) = FloatLeft then m_lineRight (getMarginsAutoIsZero box)
      else m_lineLeft (getMarginsAutoIsZero box))"
  define w where "w = area_width (areas h (borderArea h (box_id box)))"
  obtain s1 st en where sp: "placeFloat_split_with double_add bSize s = (s1, st, en)"
    using prod_cases3 by blast
  have ok: "not_below double_add (shelfBlockOffset s) bSize"
    using double_add_not_below [OF shelf(2)] shelf(1) by simp
  note i1 = FloatSide_inv_rounded_placeFloat_split [OF inv sp ok]
  have le: "lengths_equal s" using inv by (simp add: FloatSide_inv_rounded_def)
  have le1: "lengths_equal s1" using i1(1) by (simp add: FloatSide_inv_rounded_def)
  have n1: "length (floatCounts s1) = length (blockOffsets s1)"
    "length (inlineSizes s1) = length (blockOffsets s1)"
    "length (inlineOffsets s1) = length (blockOffsets s1)"
    using le1 by (simp_all add: lengths_equal_def)
  have J1: "tracks_all (\<lambda>sz off cnt. (cnt = NaN \<or> 0 \<le> cnt) \<and> (0 < cnt \<longrightarrow> 0 < sz)) s1"
    using tracks_all_placeFloat_split_with [OF le _ J, of double_add bSize] sp by simp
  have rep: "representable_number mo"
    and wide: "0 < double_add (double_add mo w) me"
    and Q: "\<forall>t \<in> set [st .. en - 1]. 0 < nth_js (floatCounts s1) t \<longrightarrow>
              nth_js (inlineSizes s1) t - nth_js (inlineOffsets s1) t \<le> c"
    using pc sp
    by (simp_all add: placement_clear_def outer_size_positive_def placement_after_edges_def Let_def
        mo_def me_def w_def c_def bSize_def [symmetric])
  have Q1: "\<forall>i. nat st \<le> i \<and> int i < en \<longrightarrow>
           0 < floatCounts s1 ! i \<longrightarrow> inlineSizes s1 ! i - inlineOffsets s1 ! i \<le> c"
  proof (intro allI impI)
    fix i assume a: "nat st \<le> i \<and> int i < en" and b: "0 < floatCounts s1 ! i"
    have m: "int i \<in> set [st .. en - 1]" using a i1(2) by auto
    have il: "i < length (blockOffsets s1)" using a i1(3) by simp
    then have "nth_js (floatCounts s1) (int i) = floatCounts s1 ! i"
      "nth_js (inlineSizes s1) (int i) = inlineSizes s1 ! i"
      "nth_js (inlineOffsets s1) (int i) = inlineOffsets s1 ! i"
      using n1 by (simp_all add: nth_js_def)
    then show "inlineSizes s1 ! i - inlineOffsets s1 ! i \<le> c"
      using Q [rule_format, OF m] b by simp
  qed
  note loop = placeFloat_loop_clear [OF le1 i1(2) i1(3) J1 Q1 rep wide]
  show ?thesis
  proof (cases "float (style box) = FloatNone \<or> strict_ne (v_blockOffset vacancy) (shelfBlockOffset s)")
    case True
    then show ?thesis using J by (auto simp: FloatSide_placeFloat_with_def)
  next
    case False
    show ?thesis
    proof (cases "placeFloat_position_with double_add double_sub box c cl mo h")
      case (Threw e h')
      then show ?thesis
        using False sp J1
        by (simp add: FloatSide_placeFloat_with_def Let_def bSize_def [symmetric] c_def [symmetric]
            cl_def [symmetric] mo_def [symmetric])
    next
      case (Done h')
      have "area_width (areas h' (borderArea h' (box_id box))) = w"
        using placeFloat_position_with_width [OF Done] by (simp add: w_def)
      then show ?thesis
        using False sp loop Done
        by (simp add: FloatSide_placeFloat_with_def Let_def bSize_def [symmetric] c_def [symmetric]
            cl_def [symmetric] mo_def [symmetric] me_def [symmetric])
    qed
  qed
qed














section \<open>The collapse-through scenario\<close>

text \<open>
  Claim C2. Laying out, in a fresh block formatting context, a parent that has margin-top
  10 and margin-bottom 0 and whose only child is an empty block with margin-top 20 and
  margin-bottom 5, with no border or padding anywhere and both block sizes \<^verbatim>\<open>auto\<close>,
  completes without an exception and leaves the border box of the parent at block start 20
  with block size 0, whatever the line breaker is. The fresh context is the one that
  \<^verbatim>\<open>layoutBlockBox\<close> creates for \<open>collapse_root\<close>, and the positions are those assigned
  when that context is finalized.
\<close>

theorem collapse_through_scenario:
  "\<exists>bfc h. collapse_layout createLineboxes = Done (bfc, h)
     \<and> blockStart (border_box h collapse_parent) = Num 20
     \<and> blockSize (border_box h collapse_parent) = Num 0"
proof -
  have completes: "\<not> threw (collapse_layout createLineboxes)"
    by code_simp
  have start: "blockStart (border_box (snd (state_of (collapse_layout createLineboxes)))
                  collapse_parent) = Num 20"
    by code_simp
  have height: "blockSize (border_box (snd (state_of (collapse_layout createLineboxes)))
                   collapse_parent) = Num 0"
    by code_simp
  from completes obtain bfc h where laid: "collapse_layout createLineboxes = Done (bfc, h)"
    by (cases "collapse_layout createLineboxes") auto
  from start height show ?thesis
    unfolding laid by simp
qed

end
